theory Spec2Isabelle
  imports
    Complex_Main
    "HOL-Library.Product_Lexorder"
    "HOL-Library.List_Lexorder"
    "HOL-Library.Multiset"
begin

section \<open>Strings and column-name normalisation\<close>

text \<open>
  A Python \<open>str\<close> is a sequence of Unicode code points, so a string is modelled as a
  list of code points (\<open>nat\<close>). The pound sign is the single code point U+00A3.
  \<open>str\<close> embeds an ASCII literal.
\<close>

type_synonym pystr = "nat list"

definition str :: "string \<Rightarrow> pystr" where
  "str s = map of_char s"

definition pound :: nat where
  "pound = 163"

text \<open>
  \<open>str.strip()\<close> without argument removes leading and trailing whitespace, that is the
  code points for which \<open>str.isspace()\<close> holds.
\<close>

definition isspace :: "nat \<Rightarrow> bool" where
  "isspace c \<longleftrightarrow>
     (9 \<le> c \<and> c \<le> 13) \<or> (28 \<le> c \<and> c \<le> 32) \<or> c = 133 \<or> c = 160 \<or> c = 5760 \<or>
     (8192 \<le> c \<and> c \<le> 8202) \<or> c = 8232 \<or> c = 8233 \<or> c = 8239 \<or> c = 8287 \<or> c = 12288"

definition strip :: "pystr \<Rightarrow> pystr" where
  "strip s = rev (dropWhile isspace (rev (dropWhile isspace s)))"

text \<open>
  \<open>s.replace(old, new)\<close> with a non-empty literal \<open>old\<close>: the occurrences are found
  from left to right and do not overlap. The first argument pair is the head and the
  tail of \<open>old\<close>.
\<close>

fun replace :: "nat \<Rightarrow> pystr \<Rightarrow> pystr \<Rightarrow> pystr \<Rightarrow> pystr" where
  "replace p ps new [] = []"
| "replace p ps new (c # cs) =
     (if c = p \<and> take (length ps) cs = ps
      then new @ replace p ps new (drop (length ps) cs)
      else c # replace p ps new cs)"

text \<open>The regular expression \<^verbatim>\<open>[\(\)]\<close> replaced by the empty string.\<close>

definition strip_parens :: "pystr \<Rightarrow> pystr" where
  "strip_parens s = filter (\<lambda>c. c \<noteq> 40 \<and> c \<noteq> 41) s"

text \<open>
  The chain applied to \<open>df.columns\<close>:
  \<^verbatim>\<open>.str.strip().str.replace(" ", "_").str.replace("(\<pounds>)", "GBP").str.replace(r"[\(\)]", "", regex=True)\<close>
  where the first two replacements are literal.
\<close>

definition normalize_name :: "pystr \<Rightarrow> pystr" where
  "normalize_name c =
     strip_parens (replace 40 [pound, 41] (str ''GBP'') (replace 32 [] (str ''_'') (strip c)))"

section \<open>Numbers, timestamps and cells\<close>

text \<open>
  A float64 value is a finite number, an infinity or NaN. Finite values are kept as
  rationals and the sign of zero is not modelled (a zero is a positive zero). NaN is the
  missing value of pandas, so a float64 is a \<open>num option\<close> with \<open>None\<close> for NaN. The
  operations \<open>num_div\<close>, \<open>num_mul\<close> and \<open>num_add\<close> give the exact result on finite
  operands and follow IEEE 754 on the special values. The one division and the one
  multiplication of the cleaning pipeline are taken exact; the sums and means of the
  aggregates round every operation to float64 (section \<open>The aggregates\<close>).
\<close>

datatype num = Fin rat | PInf | NInf

type_synonym f64 = "num option"

fun num_div :: "num \<Rightarrow> num \<Rightarrow> f64" where
  "num_div (Fin a) (Fin b) =
     (if b \<noteq> 0 then Some (Fin (a / b))
      else if 0 < a then Some PInf else if a < 0 then Some NInf else None)"
| "num_div (Fin a) PInf = Some (Fin 0)"
| "num_div (Fin a) NInf = Some (Fin 0)"
| "num_div PInf (Fin b) = (if 0 \<le> b then Some PInf else Some NInf)"
| "num_div NInf (Fin b) = (if 0 \<le> b then Some NInf else Some PInf)"
| "num_div PInf PInf = None"
| "num_div PInf NInf = None"
| "num_div NInf PInf = None"
| "num_div NInf NInf = None"

fun num_mul :: "num \<Rightarrow> num \<Rightarrow> f64" where
  "num_mul (Fin a) (Fin b) = Some (Fin (a * b))"
| "num_mul (Fin a) PInf = (if 0 < a then Some PInf else if a < 0 then Some NInf else None)"
| "num_mul (Fin a) NInf = (if 0 < a then Some NInf else if a < 0 then Some PInf else None)"
| "num_mul PInf (Fin b) = (if 0 < b then Some PInf else if b < 0 then Some NInf else None)"
| "num_mul NInf (Fin b) = (if 0 < b then Some NInf else if b < 0 then Some PInf else None)"
| "num_mul PInf PInf = Some PInf"
| "num_mul PInf NInf = Some NInf"
| "num_mul NInf PInf = Some NInf"
| "num_mul NInf NInf = Some PInf"

fun num_add :: "num \<Rightarrow> num \<Rightarrow> f64" where
  "num_add (Fin a) (Fin b) = Some (Fin (a + b))"
| "num_add (Fin a) PInf = Some PInf"
| "num_add (Fin a) NInf = Some NInf"
| "num_add PInf (Fin b) = Some PInf"
| "num_add NInf (Fin b) = Some NInf"
| "num_add PInf PInf = Some PInf"
| "num_add NInf NInf = Some NInf"
| "num_add PInf NInf = None"
| "num_add NInf PInf = None"

text \<open>NaN in either operand gives NaN.\<close>

fun lift2 :: "(num \<Rightarrow> num \<Rightarrow> f64) \<Rightarrow> f64 \<Rightarrow> f64 \<Rightarrow> f64" where
  "lift2 f (Some x) (Some y) = f x y"
| "lift2 f _ _ = None"

definition fdiv :: "f64 \<Rightarrow> f64 \<Rightarrow> f64" where
  "fdiv = lift2 num_div"

definition fmul :: "f64 \<Rightarrow> f64 \<Rightarrow> f64" where
  "fmul = lift2 num_mul"

definition fadd :: "f64 \<Rightarrow> f64 \<Rightarrow> f64" where
  "fadd = lift2 num_add"

text \<open>The order of float64 values that are not NaN, as a sort key.\<close>

type_synonym num_key = "int \<times> rat"

fun num_key :: "num \<Rightarrow> num_key" where
  "num_key NInf = (-1, 0)"
| "num_key (Fin a) = (0, a)"
| "num_key PInf = (1, 0)"

text \<open>
  A pandas Timestamp is given by its calendar fields; the chronological order is the
  lexicographic order of (year, month, day, nanosecond of the day).
\<close>

datatype month =
  January | February | March | April | May | June |
  July | August | September | October | November | December

datatype timestamp =
  Timestamp (ts_year: int) (ts_month: month) (ts_day: nat) (ts_nanos: nat)

fun month_num :: "month \<Rightarrow> nat" where
  "month_num January = 1"
| "month_num February = 2"
| "month_num March = 3"
| "month_num April = 4"
| "month_num May = 5"
| "month_num June = 6"
| "month_num July = 7"
| "month_num August = 8"
| "month_num September = 9"
| "month_num October = 10"
| "month_num November = 11"
| "month_num December = 12"

fun month_name :: "month \<Rightarrow> pystr" where
  "month_name January = str ''January''"
| "month_name February = str ''February''"
| "month_name March = str ''March''"
| "month_name April = str ''April''"
| "month_name May = str ''May''"
| "month_name June = str ''June''"
| "month_name July = str ''July''"
| "month_name August = str ''August''"
| "month_name September = str ''September''"
| "month_name October = str ''October''"
| "month_name November = str ''November''"
| "month_name December = str ''December''"

type_synonym ts_key = "int \<times> nat \<times> nat \<times> nat"

definition ts_key :: "timestamp \<Rightarrow> ts_key" where
  "ts_key t = (ts_year t, month_num (ts_month t), ts_day t, ts_nanos t)"

text \<open>
  A cell of a data frame: missing (NaN, NaT or None, which \<open>isna\<close>, \<open>dropna\<close>,
  \<open>drop_duplicates\<close> and \<open>groupby\<close> treat alike), a number, a text or a timestamp.
\<close>

datatype cell = NA | Num num | Str pystr | Stamp timestamp

datatype error = KeyError | ValueError | TypeError | AttributeError

text \<open>
  Arithmetic is modelled on numeric columns. A text or a timestamp in an operand is
  outside these columns and is reported as \<open>TypeError\<close>.
\<close>

fun to_f64 :: "cell \<Rightarrow> error + f64" where
  "to_f64 NA = Inr None"
| "to_f64 (Num x) = Inr (Some x)"
| "to_f64 (Str s) = Inl TypeError"
| "to_f64 (Stamp t) = Inl TypeError"

fun of_f64 :: "f64 \<Rightarrow> cell" where
  "of_f64 None = NA"
| "of_f64 (Some x) = Num x"

text \<open>The first error of a list of results, or all the values.\<close>

fun collect :: "(error + 'a) list \<Rightarrow> error + 'a list" where
  "collect [] = Inr []"
| "collect (Inl e # xs) = Inl e"
| "collect (Inr x # xs) = (case collect xs of Inl e \<Rightarrow> Inl e | Inr ys \<Rightarrow> Inr (x # ys))"

section \<open>Data frames\<close>

text \<open>
  A data frame has column labels and rows; a row carries its index label and one cell
  per column. Column labels may repeat.
\<close>

type_synonym row = "nat \<times> cell list"

record table =
  columns :: "pystr list"
  rows :: "row list"

definition wf_table :: "table \<Rightarrow> bool" where
  "wf_table t \<longleftrightarrow> list_all (\<lambda>r. length (snd r) = length (columns t)) (rows t)"

text \<open>
  \<open>df[name]\<close> as a single column: \<open>KeyError\<close> when no column has the label; with a
  repeated label the expression is a frame, on which \<open>to_datetime\<close>, \<open>sort_values\<close>, the
  arithmetic assignment and \<open>groupby\<close> of the script raise, which the model reports as
  \<open>ValueError\<close>.
\<close>

definition positions :: "pystr list \<Rightarrow> pystr \<Rightarrow> nat list" where
  "positions cols name = filter (\<lambda>i. cols ! i = name) [0..<length cols]"

definition col_index :: "pystr list \<Rightarrow> pystr \<Rightarrow> error + nat" where
  "col_index cols name =
     (case positions cols name of
        [] \<Rightarrow> Inl KeyError
      | [j] \<Rightarrow> Inr j
      | _ \<Rightarrow> Inl ValueError)"

definition column :: "nat \<Rightarrow> table \<Rightarrow> cell list" where
  "column j t = map (\<lambda>r. snd r ! j) (rows t)"

text \<open>
  \<open>df[name] = vals\<close>: a new label is appended as the last column; an existing label
  is overwritten in place, in every column that carries it.
\<close>

definition set_cells :: "pystr list \<Rightarrow> pystr \<Rightarrow> cell \<Rightarrow> cell list \<Rightarrow> cell list" where
  "set_cells cols name v cs =
     (if name \<in> set cols
      then map (\<lambda>i. if cols ! i = name then v else cs ! i) [0..<length cs]
      else cs @ [v])"

definition set_col :: "pystr \<Rightarrow> cell list \<Rightarrow> table \<Rightarrow> table" where
  "set_col name vals t =
     \<lparr>columns = (if name \<in> set (columns t) then columns t else columns t @ [name]),
      rows = map2 (\<lambda>v r. (fst r, set_cells (columns t) name v (snd r))) vals (rows t)\<rparr>"

definition ebind :: "error + 'a \<Rightarrow> ('a \<Rightarrow> error + 'b) \<Rightarrow> error + 'b" where
  "ebind m f = (case m of Inl e \<Rightarrow> Inl e | Inr x \<Rightarrow> f x)"

definition get_col :: "pystr \<Rightarrow> table \<Rightarrow> error + cell list" where
  "get_col name t = ebind (col_index (columns t) name) (\<lambda>j. Inr (column j t))"

section \<open>Sorting\<close>

text \<open>
  \<open>sort_values\<close> sorts with \<open>kind="quicksort"\<close>, which is not stable: the indices come
  out ordered by key, and positions with equal keys in an order that the sorting routine
  decides. \<open>tie ks i\<close> is the rank that the routine gives position \<open>i\<close> among the
  positions with the same key in \<open>ks\<close>; a stable sort is \<open>tie ks i = i\<close>.
\<close>

definition argsort :: "('k::linorder list \<Rightarrow> nat \<Rightarrow> nat) \<Rightarrow> 'k list \<Rightarrow> nat list" where
  "argsort tie ks = sort_key (\<lambda>i. (ks ! i, tie ks i)) [0..<length ks]"

text \<open>
  \<open>nargsort\<close> of pandas with \<open>na_position="last"\<close>: the missing keys (\<open>None\<close>) are taken
  out and put last; a descending sort reverses the present keys, sorts them and reverses
  the result.
\<close>

definition nargsort ::
  "('k::linorder list \<Rightarrow> nat \<Rightarrow> nat) \<Rightarrow> bool \<Rightarrow> 'k option list \<Rightarrow> nat list" where
  "nargsort tie ascending items =
     (let idx = [0..<length items];
          non_nan_idx = filter (\<lambda>i. items ! i \<noteq> None) idx;
          nan_idx = filter (\<lambda>i. items ! i = None) idx;
          non_nans = map (\<lambda>i. the (items ! i)) non_nan_idx;
          indexer =
            (if ascending then map (\<lambda>p. non_nan_idx ! p) (argsort tie non_nans)
             else rev (map (\<lambda>p. rev non_nan_idx ! p) (argsort tie (rev non_nans))))
      in indexer @ nan_idx)"

definition take_rows :: "nat list \<Rightarrow> table \<Rightarrow> table" where
  "take_rows indexer t = t\<lparr>rows := map (\<lambda>i. rows t ! i) indexer\<rparr>"

section \<open>The cleaning pipeline\<close>

text \<open>
  \<open>pd.to_datetime(col, dayfirst=True, errors="coerce")\<close>: a timestamp and a missing
  value are kept; every other value goes through the day-first parser, whose format may
  depend on the column, and becomes NaT when it does not parse. The parser is the
  parameter \<open>parse\<close>.
\<close>

definition coerce ::
  "(cell list \<Rightarrow> cell \<Rightarrow> timestamp option) \<Rightarrow> cell list \<Rightarrow> cell \<Rightarrow> cell" where
  "coerce parse col c =
     (case c of
        NA \<Rightarrow> NA
      | Stamp t \<Rightarrow> Stamp t
      | _ \<Rightarrow> (case parse col c of None \<Rightarrow> NA | Some t \<Rightarrow> Stamp t))"

definition to_datetime ::
  "(cell list \<Rightarrow> cell \<Rightarrow> timestamp option) \<Rightarrow> cell list \<Rightarrow> cell list" where
  "to_datetime parse col = map (coerce parse col) col"

text \<open>\<open>drop_duplicates()\<close> keeps the first of the rows that agree on every column.\<close>

fun dedup :: "cell list list \<Rightarrow> row list \<Rightarrow> row list" where
  "dedup seen [] = []"
| "dedup seen (r # rs) =
     (if snd r \<in> set seen then dedup seen rs else r # dedup (snd r # seen) rs)"

definition drop_duplicates :: "table \<Rightarrow> table" where
  "drop_duplicates t = t\<lparr>rows := dedup [] (rows t)\<rparr>"

text \<open>\<open>dropna(subset=[name])\<close> keeps the rows with no missing cell under the label.\<close>

definition dropna :: "pystr \<Rightarrow> table \<Rightarrow> error + table" where
  "dropna name t =
     (let ps = positions (columns t) name
      in if ps = [] then Inl KeyError
         else Inr (t\<lparr>rows := filter (\<lambda>r. \<forall>j \<in> set ps. snd r ! j \<noteq> NA) (rows t)\<rparr>))"

text \<open>
  \<open>sort_values(name)\<close> of a frame; \<open>key\<close> reads the sort key of a cell of the
  column, \<open>None\<close> for a missing one.
\<close>

fun date_key :: "cell \<Rightarrow> ts_key option" where
  "date_key (Stamp t) = Some (ts_key t)"
| "date_key _ = None"

fun value_key :: "cell \<Rightarrow> num_key option" where
  "value_key (Num x) = Some (num_key x)"
| "value_key _ = None"

definition sort_values ::
  "('k::linorder list \<Rightarrow> nat \<Rightarrow> nat) \<Rightarrow> (cell \<Rightarrow> 'k option) \<Rightarrow> bool \<Rightarrow> pystr \<Rightarrow> table \<Rightarrow>
   error + table" where
  "sort_values tie key ascending name t =
     ebind (get_col name t) (\<lambda>k. Inr (take_rows (nargsort tie ascending (map key k)) t))"

text \<open>
  The \<open>.dt\<close> accessor exists on a datetime column only; on a missing timestamp the
  fields are missing.
\<close>

fun dt_year :: "cell \<Rightarrow> error + cell" where
  "dt_year (Stamp t) = Inr (Num (Fin (of_int (ts_year t))))"
| "dt_year NA = Inr NA"
| "dt_year _ = Inl AttributeError"

fun dt_month_name :: "cell \<Rightarrow> error + cell" where
  "dt_month_name (Stamp t) = Inr (Str (month_name (ts_month t)))"
| "dt_month_name NA = Inr NA"
| "dt_month_name _ = Inl AttributeError"

text \<open>\<open>(profit / revenue) * 100\<close> on one row.\<close>

definition margin :: "cell \<Rightarrow> cell \<Rightarrow> error + cell" where
  "margin profit revenue =
     ebind (to_f64 profit) (\<lambda>p. ebind (to_f64 revenue) (\<lambda>r.
       Inr (of_f64 (fmul (fdiv p r) (Some (Fin 100))))))"

definition normalize_columns :: "table \<Rightarrow> table" where
  "normalize_columns t = t\<lparr>columns := map normalize_name (columns t)\<rparr>"

definition convert_date ::
  "(cell list \<Rightarrow> cell \<Rightarrow> timestamp option) \<Rightarrow> table \<Rightarrow> error + table" where
  "convert_date parse t =
     ebind (get_col (str ''Date'') t) (\<lambda>d.
       Inr (set_col (str ''Date'') (to_datetime parse d) t))"

definition derive_year :: "table \<Rightarrow> error + table" where
  "derive_year t =
     ebind (get_col (str ''Date'') t) (\<lambda>d. ebind (collect (map dt_year d)) (\<lambda>ys.
       Inr (set_col (str ''Year'') ys t)))"

definition derive_month :: "table \<Rightarrow> error + table" where
  "derive_month t =
     ebind (get_col (str ''Date'') t) (\<lambda>d. ebind (collect (map dt_month_name d)) (\<lambda>ms.
       Inr (set_col (str ''Month'') ms t)))"

definition derive_margin :: "table \<Rightarrow> error + table" where
  "derive_margin t =
     ebind (get_col (str ''ProfitGBP'') t) (\<lambda>p. ebind (get_col (str ''RevenueGBP'') t) (\<lambda>r.
       ebind (collect (map2 margin p r)) (\<lambda>ms.
         Inr (set_col (str ''Profit_Margin_%'') ms t))))"

text \<open>Section 3 of the script, statement by statement.\<close>

definition clean ::
  "(ts_key list \<Rightarrow> nat \<Rightarrow> nat) \<Rightarrow> (cell list \<Rightarrow> cell \<Rightarrow> timestamp option) \<Rightarrow>
   table \<Rightarrow> error + table" where
  "clean tie parse df =
     ebind (convert_date parse (normalize_columns df)) (\<lambda>df.
     ebind (dropna (str ''Date'') (drop_duplicates df)) (\<lambda>df.
     ebind (sort_values tie date_key True (str ''Date'') df) (\<lambda>df.
     ebind (derive_year df) (\<lambda>df.
     ebind (derive_month df) (\<lambda>df.
     derive_margin df)))))"

section \<open>The aggregates\<close>

text \<open>
  \<open>groupby(by)\<close> forms one group for each combination of key cells that occurs with no
  missing cell, in ascending order of the keys. \<open>cell_key\<close> orders the cells of one
  kind by their value; between the kinds it puts numbers before texts before timestamps.
\<close>

fun cell_key :: "cell \<Rightarrow> nat \<times> num_key \<times> pystr \<times> ts_key" where
  "cell_key NA = (0, (0, 0), [], (0, 0, 0, 0))"
| "cell_key (Num x) = (1, num_key x, [], (0, 0, 0, 0))"
| "cell_key (Str s) = (2, (0, 0), s, (0, 0, 0, 0))"
| "cell_key (Stamp t) = (3, (0, 0), [], ts_key t)"

definition key_of :: "nat list \<Rightarrow> row \<Rightarrow> cell list" where
  "key_of ks r = map (\<lambda>j. snd r ! j) ks"

definition group_keys :: "nat list \<Rightarrow> row list \<Rightarrow> cell list list" where
  "group_keys ks rs =
     sort_key (map cell_key) (remdups (filter (\<lambda>k. NA \<notin> set k) (map (key_of ks) rs)))"

definition group_values :: "nat list \<Rightarrow> nat \<Rightarrow> row list \<Rightarrow> cell list \<Rightarrow> cell list" where
  "group_values ks v rs k = map (\<lambda>r. snd r ! v) (filter (\<lambda>r. key_of ks r = k) rs)"

text \<open>
  The dtype check of an aggregate: the numbers of a numeric column that are there, or
  \<open>TypeError\<close> for a column of another kind.
\<close>

definition present :: "cell list \<Rightarrow> error + num list" where
  "present cs =
     ebind (collect (map to_f64 cs)) (\<lambda>xs. Inr (map the (filter (\<lambda>x. x \<noteq> None) xs)))"

subsection \<open>Float64 and int64 arithmetic\<close>

text \<open>
  An operation on float64 values gives the exact result rounded to the nearest float64:
  53 binary digits, the ties to the even significand, below \<open>2^-1022\<close> in steps of
  \<open>2^-1074\<close>, and an infinity from \<open>2^1024\<close> on. \<open>bitlen n\<close> is the number of binary
  digits of \<open>n\<close>, \<open>ilog2 a\<close> the exponent of the leading binary digit of \<open>a > 0\<close>.
\<close>

function bitlen :: "int \<Rightarrow> int" where
  "bitlen n = (if n \<le> 0 then 0 else 1 + bitlen (n div 2))"
  by pat_completeness auto
termination
  by (relation "measure nat") auto

declare bitlen.simps [simp del]

definition ilog2 :: "rat \<Rightarrow> int" where
  "ilog2 a = (if 1 \<le> a then bitlen \<lfloor>a\<rfloor> - 1 else - bitlen (\<lceil>1 / a\<rceil> - 1))"

definition pow2 :: "int \<Rightarrow> rat" where
  "pow2 e = (if 0 \<le> e then 2 ^ nat e else 1 / 2 ^ nat (- e))"

definition round_half_even :: "rat \<Rightarrow> int" where
  "round_half_even m =
     (let f = \<lfloor>m\<rfloor>; d = m - of_int f
      in if d < 1 / 2 then f else if 1 / 2 < d then f + 1 else if even f then f else f + 1)"

definition round64 :: "rat \<Rightarrow> num" where
  "round64 x =
     (if x = 0 then Fin 0
      else let a = \<bar>x\<bar>;
               q = max (ilog2 a) (- 1022) - 52;
               r = of_int (round_half_even (a / pow2 q)) * pow2 q
           in if pow2 1024 \<le> r then (if 0 < x then PInf else NInf)
              else Fin (if 0 < x then r else - r))"

fun rnd :: "f64 \<Rightarrow> f64" where
  "rnd (Some (Fin a)) = Some (round64 a)"
| "rnd x = x"

fun num_neg :: "num \<Rightarrow> num" where
  "num_neg (Fin a) = Fin (- a)"
| "num_neg PInf = NInf"
| "num_neg NInf = PInf"

definition add64 :: "f64 \<Rightarrow> f64 \<Rightarrow> f64" where
  "add64 x y = rnd (fadd x y)"

definition sub64 :: "f64 \<Rightarrow> f64 \<Rightarrow> f64" where
  "sub64 x y = rnd (fadd x (map_option num_neg y))"

definition div64 :: "f64 \<Rightarrow> f64 \<Rightarrow> f64" where
  "div64 x y = rnd (fdiv x y)"

text \<open>An int64 operation wraps around: the result is taken modulo \<open>2^64\<close> in two's complement.\<close>

definition wrap64 :: "int \<Rightarrow> int" where
  "wrap64 n = (n + 2 ^ 63) mod 2 ^ 64 - 2 ^ 63"

subsection \<open>Mean and sum of a group\<close>

text \<open>
  \<open>mean()\<close> and \<open>sum()\<close> of a group run the loops \<open>group_mean\<close> and \<open>group_sum\<close> of
  pandas over the values of the group. A missing value is skipped. Every other value is
  counted in \<open>nobs\<close> and added to the running sum \<open>sumx\<close> by compensated (Kahan)
  summation, where a compensation that has become NaN is reset to 0:

  \<^verbatim>\<open>y = val - compensation; t = sumx + y; compensation = t - sumx - y; sumx = t\<close>

  The mean is \<open>sumx / nobs\<close>, and missing when \<open>nobs\<close> is 0; the sum is \<open>sumx\<close>, so the sum of
  no value is 0. The state of the loop is \<open>(nobs, sumx, compensation)\<close>.
\<close>

definition kahan_step :: "f64 \<times> f64 \<Rightarrow> num \<Rightarrow> f64 \<times> f64" where
  "kahan_step acc val =
     (let sumx = fst acc;
          y = sub64 (Some val) (snd acc);
          t = add64 sumx y;
          compensation = sub64 (sub64 t sumx) y
      in (t, if compensation = None then Some (Fin 0) else compensation))"

fun group_loop :: "nat \<times> f64 \<times> f64 \<Rightarrow> f64 list \<Rightarrow> nat \<times> f64 \<times> f64" where
  "group_loop st [] = st"
| "group_loop st (None # vs) = group_loop st vs"
| "group_loop st (Some val # vs) = group_loop (Suc (fst st), kahan_step (snd st) val) vs"

definition agg_mean :: "cell list \<Rightarrow> error + cell" where
  "agg_mean cs =
     ebind (collect (map to_f64 cs)) (\<lambda>vs.
       let st = group_loop (0, Some (Fin 0), Some (Fin 0)) vs; nobs = fst st; sumx = fst (snd st)
       in Inr (if nobs = 0 then NA else of_f64 (div64 sumx (Some (Fin (of_nat nobs))))))"

text \<open>
  The sum depends on the dtype of the column. When the spreadsheet column holds integers
  only, pandas stores it as int64 and \<open>sum()\<close> adds in int64; otherwise the column is
  float64. The cells of the model do not record the dtype, so the sum takes it as a
  parameter; a cell that an int64 column cannot hold is reported as \<open>TypeError\<close>.
\<close>

datatype dtype = Int64 | Float64

fun to_i64 :: "cell \<Rightarrow> error + int" where
  "to_i64 (Num (Fin a)) =
     (if of_int \<lfloor>a\<rfloor> = a \<and> - (2 ^ 63) \<le> a \<and> a < 2 ^ 63 then Inr \<lfloor>a\<rfloor> else Inl TypeError)"
| "to_i64 _ = Inl TypeError"

definition agg_sum :: "dtype \<Rightarrow> cell list \<Rightarrow> error + cell" where
  "agg_sum dt cs =
     (case dt of
        Int64 \<Rightarrow>
          ebind (collect (map to_i64 cs)) (\<lambda>ns.
            Inr (Num (Fin (of_int (foldl (\<lambda>sumx val. wrap64 (sumx + val)) 0 ns)))))
      | Float64 \<Rightarrow>
          ebind (collect (map to_f64 cs)) (\<lambda>vs.
            Inr (of_f64 (fst (snd (group_loop (0, Some (Fin 0), Some (Fin 0)) vs))))))"

text \<open>A series indexed by group keys: the keys of a group and its value.\<close>

type_synonym series = "(cell list \<times> cell) list"

definition groupby_agg ::
  "pystr list \<Rightarrow> pystr \<Rightarrow> (cell list \<Rightarrow> error + cell) \<Rightarrow> table \<Rightarrow> error + series" where
  "groupby_agg by name agg t =
     ebind (collect (map (col_index (columns t)) by)) (\<lambda>ks.
     ebind (col_index (columns t) name) (\<lambda>v.
     ebind (present (column v t)) (\<lambda>_.
       collect (map (\<lambda>k. ebind (agg (group_values ks v (rows t) k)) (\<lambda>x. Inr (k, x)))
                  (group_keys ks (rows t))))))"

text \<open>\<open>Series.sort_values(ascending=False)\<close>.\<close>

definition sort_series :: "(num_key list \<Rightarrow> nat \<Rightarrow> nat) \<Rightarrow> series \<Rightarrow> series" where
  "sort_series tie s = map (\<lambda>i. s ! i) (nargsort tie False (map (\<lambda>g. value_key (snd g)) s))"

definition avg_margin :: "(num_key list \<Rightarrow> nat \<Rightarrow> nat) \<Rightarrow> table \<Rightarrow> error + series" where
  "avg_margin tie t =
     ebind (groupby_agg [str ''Confectionary''] (str ''Profit_Margin_%'') agg_mean t) (\<lambda>s.
       Inr (sort_series tie s))"

definition region_revenue ::
  "(num_key list \<Rightarrow> nat \<Rightarrow> nat) \<Rightarrow> dtype \<Rightarrow> table \<Rightarrow> error + series" where
  "region_revenue tie dt t =
     ebind (groupby_agg [str ''CountryUK''] (str ''RevenueGBP'') (agg_sum dt) t) (\<lambda>s.
       Inr (sort_series tie s))"

text \<open>
  \<open>reset_index()\<close> turns the group keys into columns and numbers the rows from 0;
  \<open>head(1)\<close> keeps the first row, if there is one.
\<close>

definition reset_index :: "pystr list \<Rightarrow> pystr \<Rightarrow> series \<Rightarrow> table" where
  "reset_index by name s =
     \<lparr>columns = by @ [name],
      rows = map (\<lambda>i. (i, fst (s ! i) @ [snd (s ! i)])) [0..<length s]\<rparr>"

definition head :: "nat \<Rightarrow> table \<Rightarrow> table" where
  "head n t = t\<lparr>rows := take n (rows t)\<rparr>"

definition peak_month ::
  "(num_key list \<Rightarrow> nat \<Rightarrow> nat) \<Rightarrow> dtype \<Rightarrow> table \<Rightarrow> error + table" where
  "peak_month tie dt t =
     ebind (groupby_agg [str ''Year'', str ''Month''] (str ''RevenueGBP'') (agg_sum dt) t) (\<lambda>s.
     ebind (sort_values tie value_key False (str ''RevenueGBP'')
              (reset_index [str ''Year'', str ''Month''] (str ''RevenueGBP'') s)) (\<lambda>f.
       Inr (head 1 f)))"

section \<open>The script\<close>

text \<open>
  Section 5 of the script works on objects. \<open>df\<close> names the cleaned frame, and a pandas
  call reads the object it is called on and returns a new object or, with
  \<open>inplace=True\<close>, changes the object it is called on and returns \<open>None\<close>. The store is
  the list of the objects made so far, the address of an object is its position, and a
  variable holds an address. A call on an address that holds no object of the right
  kind is reported as \<open>AttributeError\<close>.
\<close>

datatype obj = Frame table | Series series

type_synonym store = "obj list"

definition alloc :: "obj \<Rightarrow> store \<Rightarrow> store \<times> nat" where
  "alloc x h = (h @ [x], length h)"

definition frame_at :: "store \<Rightarrow> nat \<Rightarrow> error + table" where
  "frame_at h a =
     (if a < length h then (case h ! a of Frame t \<Rightarrow> Inr t | Series s \<Rightarrow> Inl AttributeError)
      else Inl AttributeError)"

definition series_at :: "store \<Rightarrow> nat \<Rightarrow> error + series" where
  "series_at h a =
     (if a < length h then (case h ! a of Series s \<Rightarrow> Inr s | Frame t \<Rightarrow> Inl AttributeError)
      else Inl AttributeError)"

text \<open>
  \<open>frame.groupby(by)[name].mean()\<close> and \<open>.sum()\<close>: the group-by objects keep a
  reference to the frame, and the aggregation reads the frame and returns a new series.
\<close>

definition obj_groupby_agg ::
  "pystr list \<Rightarrow> pystr \<Rightarrow> (cell list \<Rightarrow> error + cell) \<Rightarrow> nat \<Rightarrow> store \<Rightarrow> error + store \<times> nat" where
  "obj_groupby_agg by name agg a h =
     ebind (frame_at h a) (\<lambda>t.
     ebind (groupby_agg by name agg t) (\<lambda>s.
       Inr (alloc (Series s) h)))"

text \<open>
  \<open>series.sort_values(ascending=False, inplace=...)\<close> and
  \<open>frame.sort_values(name, ascending=..., inplace=...)\<close>: the sorted object is a new one
  and is returned, unless \<open>inplace\<close> is set (the default is \<open>False\<close>).
\<close>

definition obj_sort_series ::
  "(num_key list \<Rightarrow> nat \<Rightarrow> nat) \<Rightarrow> bool \<Rightarrow> nat \<Rightarrow> store \<Rightarrow> error + store \<times> nat option" where
  "obj_sort_series tie inplace a h =
     ebind (series_at h a) (\<lambda>s.
       if inplace then Inr (h[a := Series (sort_series tie s)], None)
       else Inr (h @ [Series (sort_series tie s)], Some (length h)))"

definition obj_sort_values ::
  "('k::linorder list \<Rightarrow> nat \<Rightarrow> nat) \<Rightarrow> (cell \<Rightarrow> 'k option) \<Rightarrow> bool \<Rightarrow> pystr \<Rightarrow> bool \<Rightarrow> nat \<Rightarrow> store \<Rightarrow>
   error + store \<times> nat option" where
  "obj_sort_values tie key ascending name inplace a h =
     ebind (frame_at h a) (\<lambda>t.
     ebind (sort_values tie key ascending name t) (\<lambda>f.
       if inplace then Inr (h[a := Frame f], None)
       else Inr (h @ [Frame f], Some (length h))))"

text \<open>\<open>series.reset_index()\<close> and \<open>frame.head(n)\<close> return a new frame.\<close>

definition obj_reset_index :: "pystr list \<Rightarrow> pystr \<Rightarrow> nat \<Rightarrow> store \<Rightarrow> error + store \<times> nat" where
  "obj_reset_index by name a h =
     ebind (series_at h a) (\<lambda>s. Inr (alloc (Frame (reset_index by name s)) h))"

definition obj_head :: "nat \<Rightarrow> nat option \<Rightarrow> store \<Rightarrow> error + store \<times> nat" where
  "obj_head n r h =
     (case r of
        None \<Rightarrow> Inl AttributeError
      | Some a \<Rightarrow> ebind (frame_at h a) (\<lambda>t. Inr (alloc (Frame (head n t)) h)))"

text \<open>
  The variables of the script in section 5: the frame, and the three results, which
  are unset until their statement has run. The three statements follow, each call of a
  chain on the object that the call before it returned.
\<close>

record workspace =
  df :: nat
  avg_margin_var :: "nat option"
  region_revenue_var :: "nat option"
  peak_month_var :: "nat option"

definition assign_avg_margin ::
  "(num_key list \<Rightarrow> nat \<Rightarrow> nat) \<Rightarrow> store \<times> workspace \<Rightarrow> error + store \<times> workspace" where
  "assign_avg_margin tie hw =
     (let w = snd hw in
      ebind (obj_groupby_agg [str ''Confectionary''] (str ''Profit_Margin_%'') agg_mean
               (df w) (fst hw)) (\<lambda>m.
      ebind (obj_sort_series tie False (snd m) (fst m)) (\<lambda>r.
        Inr (fst r, w\<lparr>avg_margin_var := snd r\<rparr>))))"

definition assign_region_revenue ::
  "(num_key list \<Rightarrow> nat \<Rightarrow> nat) \<Rightarrow> dtype \<Rightarrow> store \<times> workspace \<Rightarrow> error + store \<times> workspace" where
  "assign_region_revenue tie dt hw =
     (let w = snd hw in
      ebind (obj_groupby_agg [str ''CountryUK''] (str ''RevenueGBP'') (agg_sum dt)
               (df w) (fst hw)) (\<lambda>m.
      ebind (obj_sort_series tie False (snd m) (fst m)) (\<lambda>r.
        Inr (fst r, w\<lparr>region_revenue_var := snd r\<rparr>))))"

definition assign_peak_month ::
  "(num_key list \<Rightarrow> nat \<Rightarrow> nat) \<Rightarrow> dtype \<Rightarrow> store \<times> workspace \<Rightarrow> error + store \<times> workspace" where
  "assign_peak_month tie dt hw =
     (let w = snd hw in
      ebind (obj_groupby_agg [str ''Year'', str ''Month''] (str ''RevenueGBP'') (agg_sum dt)
               (df w) (fst hw)) (\<lambda>m.
      ebind (obj_reset_index [str ''Year'', str ''Month''] (str ''RevenueGBP'') (snd m) (fst m)) (\<lambda>f.
      ebind (obj_sort_values tie value_key False (str ''RevenueGBP'') False (snd f) (fst f)) (\<lambda>r.
      ebind (obj_head 1 (snd r) (fst r)) (\<lambda>p.
        Inr (fst p, w\<lparr>peak_month_var := Some (snd p)\<rparr>))))))"

definition analyse ::
  "(num_key list \<Rightarrow> nat \<Rightarrow> nat) \<Rightarrow> dtype \<Rightarrow> store \<times> workspace \<Rightarrow> error + store \<times> workspace" where
  "analyse tie dt hw =
     ebind (assign_avg_margin tie hw) (\<lambda>hw.
     ebind (assign_region_revenue tie dt hw) (\<lambda>hw.
     assign_peak_month tie dt hw))"

text \<open>
  The whole script on the frame that \<open>read_excel\<close> has put at the address \<open>a\<close>. The
  reader makes a column of integers an int64 column and every other numeric column a
  float64 column, and the cleaning pipeline keeps the dtype of the revenue column. The
  cleaned frame is a new object, which \<open>df\<close> names from then on.
\<close>

definition dtype_of :: "cell list \<Rightarrow> dtype" where
  "dtype_of cs = (if list_all (\<lambda>c. case to_i64 c of Inr n \<Rightarrow> True | Inl e \<Rightarrow> False) cs then Int64 else Float64)"



section \<open>Notions used in the properties\<close>

subsection \<open>Column names\<close>

text \<open>
  A plain name has no whitespace at either end, no space and no parenthesis. \<open>schema\<close>
  is the list of columns that the script expects in the spreadsheet.
\<close>

definition plain_name :: "pystr \<Rightarrow> bool" where
  "plain_name c \<longleftrightarrow> strip c = c \<and> 32 \<notin> set c \<and> 40 \<notin> set c \<and> 41 \<notin> set c"

definition schema :: "pystr list" where
  "schema = [str ''Date'', str ''Confectionary'', str ''CountryUK'', str ''Units Sold'',
     str ''Revenue('' @ [pound] @ str '')'', str ''Profit('' @ [pound] @ str '')'']"

subsection \<open>Cells and columns\<close>

fun is_stamp :: "cell \<Rightarrow> bool" where
  "is_stamp (Stamp t) = True"
| "is_stamp _ = False"

text \<open>A cell of a numeric column: a number or a missing value.\<close>

fun is_number :: "cell \<Rightarrow> bool" where
  "is_number NA = True"
| "is_number (Num x) = True"
| "is_number _ = False"

text \<open>
  A table with a single \<open>Date\<close> column, at position \<open>d\<close>, that holds timestamps only,
  and the sort keys of that column.
\<close>

definition dated :: "nat \<Rightarrow> table \<Rightarrow> bool" where
  "dated d t \<longleftrightarrow>
     wf_table t \<and> col_index (columns t) (str ''Date'') = Inr d \<and> list_all is_stamp (column d t)"

definition dkeys :: "nat \<Rightarrow> table \<Rightarrow> ts_key list" where
  "dkeys d t = map (\<lambda>c. the (date_key c)) (column d t)"

text \<open>Every column with the label \<open>n\<close> holds the cells \<open>xs\<close>, and there is one.\<close>

definition labelled :: "pystr \<Rightarrow> cell list \<Rightarrow> table \<Rightarrow> bool" where
  "labelled n xs t \<longleftrightarrow>
     n \<in> set (columns t) \<and> (\<forall>k < length (columns t). columns t ! k = n \<longrightarrow> column k t = xs)"

text \<open>Sorting the table by \<open>Date\<close> leaves every row where it is.\<close>

definition resort_keeps :: "(ts_key list \<Rightarrow> nat \<Rightarrow> nat) \<Rightarrow> table \<Rightarrow> bool" where
  "resort_keeps tie t \<longleftrightarrow>
     (case get_col (str ''Date'') t of
        Inr k \<Rightarrow> nargsort tie True (map date_key k) = [0..<length k]
      | Inl e \<Rightarrow> False)"

subsection \<open>Groups, means and sums as the specification words them\<close>

text \<open>
  The groups of a table under the key columns \<open>ks\<close>: the key combinations that occur
  with no missing cell. \<open>numbers\<close> are the values of a group with the missing ones left
  out, \<open>total\<close> is their sum and \<open>exact_mean\<close> their arithmetic mean, both in exact
  arithmetic and for finite values.
\<close>

definition groups :: "nat list \<Rightarrow> table \<Rightarrow> cell list set" where
  "groups ks t = set (filter (\<lambda>k. NA \<notin> set k) (map (key_of ks) (rows t)))"

fun numbers :: "cell list \<Rightarrow> num list" where
  "numbers [] = []"
| "numbers (Num x # cs) = x # numbers cs"
| "numbers (c # cs) = numbers cs"

fun total :: "num list \<Rightarrow> rat" where
  "total [] = 0"
| "total (Fin a # xs) = a + total xs"
| "total (x # xs) = total xs"

definition exact_mean :: "num list \<Rightarrow> rat" where
  "exact_mean xs = total xs / of_nat (length xs)"

text \<open>
  The float64 sum of a list of numbers is their compensated sum from 0, and the float64
  mean that sum divided by their number; the mean of no number is missing.
\<close>

definition float_sum :: "num list \<Rightarrow> f64" where
  "float_sum xs = fst (foldl kahan_step (Some (Fin 0), Some (Fin 0)) xs)"

definition float_mean :: "num list \<Rightarrow> cell" where
  "float_mean xs =
     (if xs = [] then NA else of_f64 (div64 (float_sum xs) (Some (Fin (of_nat (length xs))))))"

text \<open>
  The numbers are finite float64 values and so is every sum of the first few of them,
  starting from \<open>s\<close>: no addition rounds.
\<close>

fun exact_sums :: "rat \<Rightarrow> num list \<Rightarrow> bool" where
  "exact_sums s [] = True"
| "exact_sums s (Fin a # xs) =
     (round64 a = Fin a \<and> round64 (s + a) = Fin (s + a) \<and> exact_sums (s + a) xs)"
| "exact_sums s (x # xs) = False"

text \<open>The total of a group lies in the range of int64.\<close>

definition in_int64 :: "rat \<Rightarrow> bool" where
  "in_int64 a \<longleftrightarrow> - (2 ^ 63) \<le> a \<and> a < 2 ^ 63"

text \<open>
  The sum of a group is computed without wrap-around or rounding: the total lies in the
  range of int64, or no addition of the float64 sum rounds.
\<close>

definition sums_exact :: "dtype \<Rightarrow> num list \<Rightarrow> bool" where
  "sums_exact dt xs = (case dt of Int64 \<Rightarrow> in_int64 (total xs) | Float64 \<Rightarrow> exact_sums 0 xs)"

text \<open>
  The order of a descending series: \<open>x\<close> may stand before \<open>y\<close> when \<open>y\<close> is missing, or
  both are numbers and \<open>y\<close> is not the larger one.
\<close>

fun num_le :: "num \<Rightarrow> num \<Rightarrow> bool" where
  "num_le NInf y = True"
| "num_le x PInf = True"
| "num_le (Fin a) (Fin b) = (a \<le> b)"
| "num_le x y = False"

fun not_below :: "cell \<Rightarrow> cell \<Rightarrow> bool" where
  "not_below x NA = True"
| "not_below (Num a) (Num b) = num_le b a"
| "not_below x y = False"



subsection \<open>Concrete inputs\<close>

text \<open>
  A stable sorting routine; a column whose texts never parse as dates; and a day-first
  parser that knows one date, the fifth of January 2021.
\<close>

definition stable_tie :: "'k list \<Rightarrow> nat \<Rightarrow> nat" where
  "stable_tie ks i = i"

definition no_parse :: "cell list \<Rightarrow> cell \<Rightarrow> timestamp option" where
  "no_parse col c = None"

definition demo_parse :: "cell list \<Rightarrow> cell \<Rightarrow> timestamp option" where
  "demo_parse col c =
     (if c = Str (str ''05/01/2021'') then Some (Timestamp 2021 January 5 0) else None)"

text \<open>One sale with a profit of 5 on a revenue of 0, before and after cleaning.\<close>

definition zero_revenue_table :: table where
  "zero_revenue_table =
     \<lparr>columns = [str ''Date'', str ''Confectionary'', str ''ProfitGBP'', str ''RevenueGBP''],
      rows = [(0, [Stamp (Timestamp 2021 January 5 0), Str (str ''A''), Num (Fin 5), Num (Fin 0)])]\<rparr>"

definition zero_revenue_clean :: table where
  "zero_revenue_clean =
     \<lparr>columns = [str ''Date'', str ''Confectionary'', str ''ProfitGBP'', str ''RevenueGBP'',
                 str ''Year'', str ''Month'', str ''Profit_Margin_%''],
      rows = [(0, [Stamp (Timestamp 2021 January 5 0), Str (str ''A''), Num (Fin 5), Num (Fin 0),
                   Num (Fin 2021), Str (str ''January''), Num PInf])]\<rparr>"

text \<open>
  An input that has a \<open>Year\<close> column already, in which its two rows differ; the table
  after one cleaning and after two.
\<close>

definition year_table :: table where
  "year_table =
     \<lparr>columns = [str ''Date'', str ''Year'', str ''ProfitGBP'', str ''RevenueGBP''],
      rows = [(0, [Stamp (Timestamp 2021 January 5 0), Num (Fin 1), Num (Fin 5), Num (Fin 10)]),
              (1, [Stamp (Timestamp 2021 January 5 0), Num (Fin 2), Num (Fin 5), Num (Fin 10)])]\<rparr>"

definition year_clean :: table where
  "year_clean =
     \<lparr>columns = [str ''Date'', str ''Year'', str ''ProfitGBP'', str ''RevenueGBP'',
                 str ''Month'', str ''Profit_Margin_%''],
      rows = [(0, [Stamp (Timestamp 2021 January 5 0), Num (Fin 2021), Num (Fin 5), Num (Fin 10),
                   Str (str ''January''), Num (Fin 50)]),
              (1, [Stamp (Timestamp 2021 January 5 0), Num (Fin 2021), Num (Fin 5), Num (Fin 10),
                   Str (str ''January''), Num (Fin 50)])]\<rparr>"

definition year_reclean :: table where
  "year_reclean =
     \<lparr>columns = [str ''Date'', str ''Year'', str ''ProfitGBP'', str ''RevenueGBP'',
                 str ''Month'', str ''Profit_Margin_%''],
      rows = [(0, [Stamp (Timestamp 2021 January 5 0), Num (Fin 2021), Num (Fin 5), Num (Fin 10),
                   Str (str ''January''), Num (Fin 50)])]\<rparr>"

text \<open>Three rows: a duplicate pair and a row whose date does not parse.\<close>

definition three_rows_table :: table where
  "three_rows_table =
     \<lparr>columns = [str ''Date'', str ''ProfitGBP'', str ''RevenueGBP''],
      rows = [(0, [Str (str ''05/01/2021''), Num (Fin 5), Num (Fin 10)]),
              (1, [Str (str ''05/01/2021''), Num (Fin 5), Num (Fin 10)]),
              (2, [Str (str ''junk''), Num (Fin 7), Num (Fin 10)])]\<rparr>"

definition three_rows_clean :: table where
  "three_rows_clean =
     \<lparr>columns = [str ''Date'', str ''ProfitGBP'', str ''RevenueGBP'',
                 str ''Year'', str ''Month'', str ''Profit_Margin_%''],
      rows = [(0, [Stamp (Timestamp 2021 January 5 0), Num (Fin 5), Num (Fin 10),
                   Num (Fin 2021), Str (str ''January''), Num (Fin 50)])]\<rparr>"

text \<open>
  A spreadsheet with the expected columns: a duplicate pair, a row with a date that does
  not parse, a sale with no revenue and no profit; type \<open>A\<close> has the margins 10, 30 and
  missing, and the months January and February have the revenues 500 and 700. Then the
  cleaned table and the three aggregates of it.
\<close>

definition sales :: table where
  "sales =
     \<lparr>columns = [str ''Date'', str ''Confectionary'', str ''CountryUK'', str ''Units Sold'',
                 str ''Revenue('' @ [pound] @ str '')'', str ''Profit('' @ [pound] @ str '')''],
      rows =
        [(0, [Stamp (Timestamp 2021 February 7 0), Str (str ''A''), Str (str ''Wales''),
              Num (Fin 10), Num (Fin 100), Num (Fin 30)]),
         (1, [Stamp (Timestamp 2021 January 5 0), Str (str ''A''), Str (str ''England''),
              Num (Fin 50), Num (Fin 500), Num (Fin 50)]),
         (2, [Stamp (Timestamp 2021 January 5 0), Str (str ''A''), Str (str ''England''),
              Num (Fin 50), Num (Fin 500), Num (Fin 50)]),
         (3, [Stamp (Timestamp 2021 February 9 0), Str (str ''A''), NA,
              Num (Fin 0), Num (Fin 0), Num (Fin 0)]),
         (4, [Stamp (Timestamp 2021 February 9 0), Str (str ''B''), Str (str ''England''),
              Num (Fin 60), Num (Fin 600), Num (Fin 6)]),
         (5, [Str (str ''junk''), Str (str ''B''), Str (str ''England''),
              Num (Fin 1), Num (Fin 1), Num (Fin 1)])]\<rparr>"

definition sales_clean :: table where
  "sales_clean =
     \<lparr>columns = [str ''Date'', str ''Confectionary'', str ''CountryUK'', str ''Units_Sold'',
                 str ''RevenueGBP'', str ''ProfitGBP'', str ''Year'', str ''Month'',
                 str ''Profit_Margin_%''],
      rows =
        [(1, [Stamp (Timestamp 2021 January 5 0), Str (str ''A''), Str (str ''England''),
              Num (Fin 50), Num (Fin 500), Num (Fin 50),
              Num (Fin 2021), Str (str ''January''), Num (Fin 10)]),
         (0, [Stamp (Timestamp 2021 February 7 0), Str (str ''A''), Str (str ''Wales''),
              Num (Fin 10), Num (Fin 100), Num (Fin 30),
              Num (Fin 2021), Str (str ''February''), Num (Fin 30)]),
         (3, [Stamp (Timestamp 2021 February 9 0), Str (str ''A''), NA,
              Num (Fin 0), Num (Fin 0), Num (Fin 0),
              Num (Fin 2021), Str (str ''February''), NA]),
         (4, [Stamp (Timestamp 2021 February 9 0), Str (str ''B''), Str (str ''England''),
              Num (Fin 60), Num (Fin 600), Num (Fin 6),
              Num (Fin 2021), Str (str ''February''), Num (Fin 1)])]\<rparr>"

definition sales_avg_margin :: series where
  "sales_avg_margin = [([Str (str ''A'')], Num (Fin 20)), ([Str (str ''B'')], Num (Fin 1))]"

definition sales_region_revenue :: series where
  "sales_region_revenue =
     [([Str (str ''England'')], Num (Fin 1100)), ([Str (str ''Wales'')], Num (Fin 100))]"

definition sales_peak_month :: table where
  "sales_peak_month =
     \<lparr>columns = [str ''Year'', str ''Month'', str ''RevenueGBP''],
      rows = [(0, [Num (Fin 2021), Str (str ''February''), Num (Fin 700)])]\<rparr>"

text \<open>
  The variables before section 5 has run, with the cleaned frame at the address \<open>a\<close>;
  the objects that section 5 makes from the cleaned sales table (each aggregate before
  and after it is sorted, and for the peak month the sums, the frame of \<open>reset_index\<close>,
  the sorted frame and its first row), and the variables after section 5.
\<close>

definition unset_vars :: "nat \<Rightarrow> workspace" where
  "unset_vars a = \<lparr>df = a, avg_margin_var = None, region_revenue_var = None, peak_month_var = None\<rparr>"

definition sales_months :: table where
  "sales_months =
     \<lparr>columns = [str ''Year'', str ''Month'', str ''RevenueGBP''],
      rows = [(0, [Num (Fin 2021), Str (str ''February''), Num (Fin 700)]),
              (1, [Num (Fin 2021), Str (str ''January''), Num (Fin 500)])]\<rparr>"

definition sales_objects :: store where
  "sales_objects =
     [Series sales_avg_margin, Series sales_avg_margin,
      Series sales_region_revenue, Series sales_region_revenue,
      Series [([Num (Fin 2021), Str (str ''February'')], Num (Fin 700)),
              ([Num (Fin 2021), Str (str ''January'')], Num (Fin 500))],
      Frame sales_months, Frame sales_months, Frame sales_peak_month]"

definition sales_vars :: workspace where
  "sales_vars = \<lparr>df = 0, avg_margin_var = Some 2, region_revenue_var = Some 4, peak_month_var = Some 8\<rparr>"

text \<open>
  A table of margins whose groups come out of \<open>groupby\<close> in the order A, B, C with the
  means 1, 20 and missing, and its average margins; type \<open>B\<close> has the margins 10,
  missing and 30.
\<close>

definition margins_table :: table where
  "margins_table =
     \<lparr>columns = [str ''Confectionary'', str ''Profit_Margin_%''],
      rows = [(0, [Str (str ''A''), Num (Fin 1)]),
              (1, [Str (str ''B''), Num (Fin 10)]),
              (2, [Str (str ''B''), NA]),
              (3, [Str (str ''C''), NA]),
              (4, [Str (str ''B''), Num (Fin 30)])]\<rparr>"

definition margins_avg :: series where
  "margins_avg =
     [([Str (str ''B'')], Num (Fin 20)), ([Str (str ''A'')], Num (Fin 1)), ([Str (str ''C'')], NA)]"

text \<open>
  Two margins of \<open>2^1023\<close>, which is a float64 value; their sum is beyond the largest
  float64.
\<close>

definition huge :: rat where
  "huge = 2 ^ 1023"

definition huge_margins :: table where
  "huge_margins =
     \<lparr>columns = [str ''Confectionary'', str ''Profit_Margin_%''],
      rows = [(0, [Str (str ''A''), Num (Fin huge)]),
              (1, [Str (str ''A''), Num (Fin huge)])]\<rparr>"

text \<open>
  Two months whose revenues sum to 700 (January) and 500 (February), and the peak month.
\<close>

definition two_months :: table where
  "two_months =
     \<lparr>columns = [str ''Year'', str ''Month'', str ''RevenueGBP''],
      rows = [(0, [Num (Fin 2021), Str (str ''January''), Num (Fin 300)]),
              (1, [Num (Fin 2021), Str (str ''February''), Num (Fin 500)]),
              (2, [Num (Fin 2021), Str (str ''January''), Num (Fin 400)])]\<rparr>"

definition two_months_peak :: table where
  "two_months_peak =
     \<lparr>columns = [str ''Year'', str ''Month'', str ''RevenueGBP''],
      rows = [(1, [Num (Fin 2021), Str (str ''January''), Num (Fin 700)])]\<rparr>"

text \<open>
  An int64 revenue column: January has two sales of \<open>2^62\<close>, February one of 7; the
  result of the peak-month query on it.
\<close>

definition wrap_months :: table where
  "wrap_months =
     \<lparr>columns = [str ''Year'', str ''Month'', str ''RevenueGBP''],
      rows = [(0, [Num (Fin 2021), Str (str ''January''), Num (Fin (2 ^ 62))]),
              (1, [Num (Fin 2021), Str (str ''January''), Num (Fin (2 ^ 62))]),
              (2, [Num (Fin 2021), Str (str ''February''), Num (Fin 7)])]\<rparr>"

definition wrap_months_peak :: table where
  "wrap_months_peak =
     \<lparr>columns = [str ''Year'', str ''Month'', str ''RevenueGBP''],
      rows = [(0, [Num (Fin 2021), Str (str ''February''), Num (Fin 7)])]\<rparr>"

section \<open>Properties\<close>

lemma str_eq_iff [simp]: "str a = str b \<longleftrightarrow> a = b"
proof -
  have "inj (of_char :: char \<Rightarrow> nat)"
    by (rule inj_on_inverseI [where g = char_of]) simp
  then show ?thesis
    by (simp add: str_def inj_map_eq_map)
qed

lemma str_Nil [simp]: "str [] = []"
  by (simp add: str_def)

lemma str_Cons: "str (c # cs) = of_char c # str cs"
  by (simp add: str_def)

lemma replace_absent: "p \<notin> set s \<Longrightarrow> replace p ps new s = s"
  by (induction s) auto

lemma normalize_name_plain: "plain_name c \<Longrightarrow> normalize_name c = c"
  by (auto simp: plain_name_def normalize_name_def replace_absent strip_parens_def filter_id_conv)

lemmas name_eval = normalize_name_def strip_def strip_parens_def isspace_def pound_def str_Cons

lemma normalize_name_schema:
  "map normalize_name schema =
     [str ''Date'', str ''Confectionary'', str ''CountryUK'', str ''Units_Sold'',
      str ''RevenueGBP'', str ''ProfitGBP'']"
  by (simp add: schema_def name_eval)

lemma set_replace: "set (replace p ps new s) \<subseteq> set s \<union> set new"
proof (induction p ps new s rule: replace.induct)
  case (1 p ps new)
  then show ?case by simp
next
  case (2 p ps new c cs)
  have "set (drop (length ps) cs) \<subseteq> set cs"
    by (rule set_drop_subset)
  with 2 show ?case by (auto split: if_splits)
qed

lemma replace_char_absent: "p \<notin> set new \<Longrightarrow> p \<notin> set (replace p [] new s)"
  by (induction s) auto

lemma normalize_name_chars:
  "32 \<notin> set (normalize_name c) \<and> 40 \<notin> set (normalize_name c) \<and> 41 \<notin> set (normalize_name c)"
proof -
  let ?a = "replace 32 [] (str ''_'') (strip c)"
  have "32 \<notin> set ?a"
    by (rule replace_char_absent) (simp add: str_def)
  moreover have "set (replace 40 [pound, 41] (str ''GBP'') ?a) \<subseteq> set ?a \<union> set (str ''GBP'')"
    by (rule set_replace)
  moreover have "32 \<notin> set (str ''GBP'')"
    by (simp add: str_def)
  ultimately have "32 \<notin> set (replace 40 [pound, 41] (str ''GBP'') ?a)"
    by blast
  then show ?thesis
    by (simp add: normalize_name_def strip_parens_def)
qed

subsection \<open>Errors\<close>

lemma ebind_Inr_iff: "ebind m f = Inr y \<longleftrightarrow> (\<exists>x. m = Inr x \<and> f x = Inr y)"
  by (cases m) (simp_all add: ebind_def)

lemma ebind_Inr [simp]: "ebind (Inr x) f = f x"
  by (simp add: ebind_def)

lemma ebind_Inl [simp]: "ebind (Inl e) f = Inl e"
  by (simp add: ebind_def)

lemma collect_map_Inr [simp]: "collect (map Inr ys) = Inr ys"
  by (induction ys) simp_all

lemma collect_InrD: "collect xs = Inr ys \<Longrightarrow> xs = map Inr ys"
proof (induction xs arbitrary: ys)
  case Nil
  then show ?case by simp
next
  case (Cons x xs)
  then show ?case
    by (cases x) (auto split: sum.splits)
qed

lemma collect_Inr_iff: "collect xs = Inr ys \<longleftrightarrow> xs = map Inr ys"
  by (auto dest: collect_InrD)

lemma collect_length: "collect xs = Inr ys \<Longrightarrow> length ys = length xs"
  by (auto simp: collect_Inr_iff)

subsection \<open>Column lookup\<close>

lemma positions_set: "set (positions cols n) = {i. i < length cols \<and> cols ! i = n}"
  by (auto simp: positions_def)

lemma positions_Nil_iff: "positions cols n = [] \<longleftrightarrow> n \<notin> set cols"
  by (auto simp: positions_def filter_empty_conv in_set_conv_nth)

lemma positions_append_other: "m \<noteq> n \<Longrightarrow> positions (cols @ [m]) n = positions cols n"
  by (auto simp: positions_def nth_append intro!: filter_cong)

lemma col_index_Inr_iff: "col_index cols n = Inr j \<longleftrightarrow> positions cols n = [j]"
  by (auto simp: col_index_def split: list.splits)

lemma col_index_InrD:
  assumes "col_index cols n = Inr j"
  shows "j < length cols" and "cols ! j = n" and "n \<in> set cols"
    and "\<And>i. i < length cols \<Longrightarrow> cols ! i = n \<Longrightarrow> i = j"
proof -
  from assms have "set (positions cols n) = {j}"
    by (simp add: col_index_Inr_iff)
  then have *: "{i. i < length cols \<and> cols ! i = n} = {j}"
    by (simp add: positions_set)
  from * show "j < length cols" "cols ! j = n" by auto
  then show "n \<in> set cols" by auto
  fix i assume "i < length cols" "cols ! i = n"
  with * show "i = j" by auto
qed

lemma col_index_append_other: "m \<noteq> n \<Longrightarrow> col_index (cols @ [m]) n = col_index cols n"
  by (simp add: col_index_def positions_append_other)

subsection \<open>Assigning a column\<close>

lemma columns_set_col:
  "columns (set_col n vs t) = (if n \<in> set (columns t) then columns t else columns t @ [n])"
  by (simp add: set_col_def)

lemma col_index_set_col:
  "m \<noteq> n \<Longrightarrow> col_index (columns (set_col m vs t)) n = col_index (columns t) n"
  by (simp add: columns_set_col col_index_append_other)

lemma length_set_cells:
  "length (set_cells cols n v cs) = (if n \<in> set cols then length cs else Suc (length cs))"
  by (simp add: set_cells_def)

lemma nth_set_cells:
  "j < length cs \<Longrightarrow> set_cells cols n v cs ! j = (if n \<in> set cols \<and> cols ! j = n then v else cs ! j)"
  by (simp add: set_cells_def nth_append)

lemma nth_set_cells_new:
  "n \<notin> set cols \<Longrightarrow> set_cells cols n v cs ! length cs = v"
  by (simp add: set_cells_def)

lemma rows_set_col:
  "length vs = length (rows t) \<Longrightarrow>
   rows (set_col n vs t) =
     map (\<lambda>i. (fst (rows t ! i), set_cells (columns t) n (vs ! i) (snd (rows t ! i)))) [0..<length (rows t)]"
  by (auto simp: set_col_def intro!: nth_equalityI)

lemma length_rows_set_col:
  "length vs = length (rows t) \<Longrightarrow> length (rows (set_col n vs t)) = length (rows t)"
  by (simp add: set_col_def)

lemma wf_table_iff: "wf_table t \<longleftrightarrow> (\<forall>r \<in> set (rows t). length (snd r) = length (columns t))"
  by (simp add: wf_table_def list_all_iff)

lemma wf_set_col:
  "wf_table t \<Longrightarrow> length vs = length (rows t) \<Longrightarrow> wf_table (set_col n vs t)"
  by (auto simp: wf_table_iff rows_set_col columns_set_col length_set_cells)

lemma column_set_col_other:
  assumes "wf_table t" "length vs = length (rows t)" "j < length (columns t)" "columns t ! j \<noteq> n"
  shows "column j (set_col n vs t) = column j t"
  using assms
  by (auto simp: column_def rows_set_col wf_table_iff nth_set_cells intro!: nth_equalityI)

lemma column_set_col_same:
  assumes "wf_table t" "length vs = length (rows t)" "j < length (columns t)" "columns t ! j = n"
  shows "column j (set_col n vs t) = vs"
  using assms
  by (auto simp: column_def rows_set_col wf_table_iff nth_set_cells intro!: nth_equalityI)

lemma length_column [simp]: "length (column j t) = length (rows t)"
  by (simp add: column_def)

subsection \<open>Sorting\<close>

lemma mset_argsort: "mset (argsort tie ks) = mset [0..<length ks]"
  by (simp add: argsort_def)

lemma set_argsort: "set (argsort tie ks) = {0..<length ks}"
  by (simp add: argsort_def)

lemma length_argsort: "length (argsort tie ks) = length ks"
  by (simp add: argsort_def)

lemma distinct_argsort: "distinct (argsort tie ks)"
  by (simp add: argsort_def)

lemma sorted_fst_of_sorted:
  fixes f :: "'a \<Rightarrow> 'k::linorder" and g :: "'a \<Rightarrow> 'n::linorder"
  shows "sorted (map (\<lambda>i. (f i, g i)) xs) \<Longrightarrow> sorted (map f xs)"
  by (induction xs) (auto simp: less_eq_prod_def)

lemma sorted_argsort: "sorted (map (\<lambda>i. ks ! i) (argsort tie ks))"
  unfolding argsort_def
  by (rule sorted_fst_of_sorted [where g = "tie ks"]) (rule sorted_sort_key)

text \<open>A sorted list is left in place when the ties keep their order.\<close>

lemma insort_key_first: "\<forall>y \<in> set xs. f x \<le> f y \<Longrightarrow> insort_key f x xs = x # xs"
  by (cases xs) auto

lemma sort_key_sorted_id: "sorted (map f xs) \<Longrightarrow> sort_key f xs = xs"
  by (induction xs) (auto simp: insort_key_first)

lemma argsort_stable_sorted:
  assumes "sorted ks"
  shows "argsort (\<lambda>ks i. i) ks = [0..<length ks]"
  unfolding argsort_def
proof (rule sort_key_sorted_id)
  show "sorted (map (\<lambda>i. (ks ! i, i)) [0..<length ks])"
    unfolding sorted_iff_nth_mono_less
  proof (intro allI impI)
    fix i j assume "i < j" "j < length (map (\<lambda>i. (ks ! i, i)) [0..<length ks])"
    then have "j < length ks" "i < length ks" by simp_all
    moreover have "ks ! i \<le> ks ! j"
      using assms \<open>i < j\<close> \<open>j < length ks\<close> by (simp add: sorted_iff_nth_mono_less)
    ultimately show "map (\<lambda>i. (ks ! i, i)) [0..<length ks] ! i \<le> map (\<lambda>i. (ks ! i, i)) [0..<length ks] ! j"
      using \<open>i < j\<close> by (auto simp: less_eq_prod_def)
  qed
qed

lemma argsort_distinct_sorted:
  assumes "sorted ks" "distinct ks"
  shows "argsort tie ks = [0..<length ks]"
  unfolding argsort_def
proof (rule sort_key_sorted_id)
  show "sorted (map (\<lambda>i. (ks ! i, tie ks i)) [0..<length ks])"
    unfolding sorted_iff_nth_mono_less
  proof (intro allI impI)
    fix i j assume "i < j" "j < length (map (\<lambda>i. (ks ! i, tie ks i)) [0..<length ks])"
    then have len: "j < length ks" "i < length ks" by simp_all
    have "ks ! i \<le> ks ! j"
      using assms(1) \<open>i < j\<close> len by (simp add: sorted_iff_nth_mono_less)
    moreover have "ks ! i \<noteq> ks ! j"
      using assms(2) \<open>i < j\<close> len by (simp add: nth_eq_iff_index_eq)
    ultimately have "ks ! i < ks ! j" by simp
    then show "map (\<lambda>i. (ks ! i, tie ks i)) [0..<length ks] ! i
        \<le> map (\<lambda>i. (ks ! i, tie ks i)) [0..<length ks] ! j"
      using len by (simp add: less_eq_prod_def)
  qed
qed

subsection \<open>nargsort\<close>

lemma filter_upt_all: "(\<And>i. i < n \<Longrightarrow> P i) \<Longrightarrow> filter P [0..<n] = [0..<n]"
  by (simp add: filter_id_conv)

lemma filter_upt_none: "(\<And>i. i < n \<Longrightarrow> \<not> P i) \<Longrightarrow> filter P [0..<n] = []"
  by (simp add: filter_empty_conv)

lemma mset_filter_split: "mset (filter P xs) + mset (filter (\<lambda>x. \<not> P x) xs) = mset xs"
  by (induction xs) auto

lemma map_nth_perm:
  assumes "mset p = mset [0..<length xs]"
  shows "mset (map (\<lambda>i. xs ! i) p) = mset xs"
proof -
  have "mset (map (\<lambda>i. xs ! i) p) = image_mset (\<lambda>i. xs ! i) (mset p)" by simp
  also have "\<dots> = mset (map (\<lambda>i. xs ! i) [0..<length xs])" by (simp add: assms)
  also have "\<dots> = mset xs" by (simp add: map_nth)
  finally show ?thesis .
qed

lemma nargsort_asc_present:
  assumes "None \<notin> set items"
  shows "nargsort tie True items = argsort tie (map the items)"
proof -
  let ?n = "length items"
  have a: "filter (\<lambda>i. items ! i \<noteq> None) [0..<?n] = [0..<?n]"
    using assms by (intro filter_upt_all) (metis nth_mem)
  have b: "filter (\<lambda>i. items ! i = None) [0..<?n] = []"
    using assms by (intro filter_upt_none) (metis nth_mem)
  have c: "map (\<lambda>i. the (items ! i)) [0..<?n] = map the items"
    by (intro nth_equalityI) simp_all
  have "map (\<lambda>p. [0..<?n] ! p) (argsort tie (map the items)) = argsort tie (map the items)"
    by (intro map_idI) (simp add: set_argsort)
  then show ?thesis
    unfolding nargsort_def Let_def a b c by simp
qed

lemma mset_nargsort: "mset (nargsort tie asc items) = mset [0..<length items]"
proof -
  let ?n = "length items"
  let ?A = "filter (\<lambda>i. items ! i \<noteq> None) [0..<?n]"
  let ?B = "filter (\<lambda>i. \<not> items ! i \<noteq> None) [0..<?n]"
  let ?K = "map (\<lambda>i. the (items ! i)) ?A"
  have 1: "mset (map (\<lambda>p. ?A ! p) (argsort tie ?K)) = mset ?A"
    by (rule map_nth_perm) (simp add: mset_argsort)
  have "mset (map (\<lambda>p. rev ?A ! p) (argsort tie (rev ?K))) = mset (rev ?A)"
    by (rule map_nth_perm) (simp add: mset_argsort)
  then have 2: "mset (rev (map (\<lambda>p. rev ?A ! p) (argsort tie (rev ?K)))) = mset ?A"
    by simp
  have 3: "mset ?A + mset ?B = mset [0..<?n]"
    by (rule mset_filter_split)
  show ?thesis
    unfolding nargsort_def Let_def
    using 1 2 3 by (cases asc) (simp_all del: mset_filter mset_map mset_rev mset_upt)
qed

subsection \<open>Removing duplicates\<close>

lemma set_dedup: "set (dedup seen rs) \<subseteq> set rs"
  by (induction rs arbitrary: seen) auto

lemma snd_set_dedup: "snd ` set (dedup seen rs) = snd ` set rs - set seen"
  by (induction rs arbitrary: seen) auto

lemma distinct_dedup: "distinct (map snd (dedup seen rs))"
proof (induction rs arbitrary: seen)
  case Nil
  then show ?case by simp
next
  case (Cons r rs)
  have "snd r \<notin> snd ` set (dedup (snd r # seen) rs)"
    by (simp add: snd_set_dedup)
  with Cons show ?case by simp
qed

lemma dedup_distinct_id:
  "distinct (map snd rs) \<Longrightarrow> snd ` set rs \<inter> set seen = {} \<Longrightarrow> dedup seen rs = rs"
  by (induction rs arbitrary: seen) auto

lemma length_filter_dedup:
  "length (filter (\<lambda>r. P (snd r)) (dedup seen rs)) = card {c \<in> snd ` set rs - set seen. P c}"
proof (induction rs arbitrary: seen)
  case Nil
  then show ?case by simp
next
  case (Cons r rs)
  show ?case
  proof (cases "snd r \<in> set seen")
    case True
    then have "{c \<in> snd ` set (r # rs) - set seen. P c} = {c \<in> snd ` set rs - set seen. P c}"
      by auto
    with True Cons show ?thesis by simp
  next
    case False
    let ?S = "{c \<in> snd ` set rs - set (snd r # seen). P c}"
    have fin: "finite ?S" by simp
    have notin: "snd r \<notin> ?S" by simp
    show ?thesis
    proof (cases "P (snd r)")
      case True
      with False have "{c \<in> snd ` set (r # rs) - set seen. P c} = insert (snd r) ?S"
        by auto
      with True False Cons fin notin show ?thesis by simp
    next
      case np: False
      with False have "{c \<in> snd ` set (r # rs) - set seen. P c} = ?S"
        by auto
      with np False Cons show ?thesis by simp
    qed
  qed
qed

subsection \<open>The stages of the cleaning pipeline\<close>

lemma clean_stages:
  assumes "clean tie parse t = Inr t'"
  obtains t1 t2 t3 t4 t5 where
    "convert_date parse (normalize_columns t) = Inr t1"
    "dropna (str ''Date'') (drop_duplicates t1) = Inr t2"
    "sort_values tie date_key True (str ''Date'') t2 = Inr t3"
    "derive_year t3 = Inr t4"
    "derive_month t4 = Inr t5"
    "derive_margin t5 = Inr t'"
  using assms by (auto simp: clean_def ebind_Inr_iff)

lemma wf_normalize_columns: "wf_table t \<Longrightarrow> wf_table (normalize_columns t)"
  by (simp add: wf_table_iff normalize_columns_def)

lemma get_col_Inr_iff:
  "get_col n t = Inr c \<longleftrightarrow> (\<exists>j. col_index (columns t) n = Inr j \<and> c = column j t)"
  by (auto simp: get_col_def ebind_Inr_iff)

lemma set_col_keeps:
  assumes "wf_table t" "length vs = length (rows t)" "col_index (columns t) n = Inr j" "m \<noteq> n"
  shows "col_index (columns (set_col m vs t)) n = Inr j"
    and "column j (set_col m vs t) = column j t"
proof -
  show "col_index (columns (set_col m vs t)) n = Inr j"
    using assms by (simp add: col_index_set_col)
  show "column j (set_col m vs t) = column j t"
    using assms col_index_InrD(1,2) [OF assms(3)]
    by (intro column_set_col_other) auto
qed

lemma column_set_col_label:
  assumes "wf_table t" "length vs = length (rows t)"
    and "k < length (columns (set_col n vs t))" "columns (set_col n vs t) ! k = n"
  shows "column k (set_col n vs t) = vs"
proof (cases "n \<in> set (columns t)")
  case True
  with assms show ?thesis
    by (intro column_set_col_same) (simp_all add: columns_set_col)
next
  case False
  with assms(3,4) have k: "k = length (columns t)"
    by (cases "k < length (columns t)") (auto simp: columns_set_col nth_append)
  have "(snd (rows t ! i) @ [v]) ! length (columns t) = v" if "i < length (rows t)" for i v
  proof -
    have "length (snd (rows t ! i)) = length (columns t)"
      using assms(1) that by (simp add: wf_table_iff)
    then show ?thesis by (metis nth_append_length)
  qed
  then show ?thesis
    using assms(2) False
    by (auto simp: k column_def rows_set_col set_cells_def intro!: nth_equalityI)
qed

lemma coerce_cases: "coerce parse col c = NA \<or> is_stamp (coerce parse col c)"
  by (cases c) (auto simp: coerce_def split: option.splits)

lemma convert_date_props:
  assumes "wf_table t" "convert_date parse t = Inr t1"
  obtains d where "col_index (columns t) (str ''Date'') = Inr d"
    "columns t1 = columns t" "wf_table t1"
    "rows t1 = map (\<lambda>r. (fst r, set_cells (columns t) (str ''Date'')
                             (coerce parse (column d t) (snd r ! d)) (snd r))) (rows t)"
proof -
  from assms(2) obtain d where d: "col_index (columns t) (str ''Date'') = Inr d"
    and t1: "t1 = set_col (str ''Date'') (to_datetime parse (column d t)) t"
    by (auto simp: convert_date_def ebind_Inr_iff get_col_Inr_iff)
  have len: "length (to_datetime parse (column d t)) = length (rows t)"
    by (simp add: to_datetime_def)
  have "columns t1 = columns t"
    using col_index_InrD(3) [OF d] by (simp add: t1 columns_set_col)
  moreover have "wf_table t1"
    unfolding t1 using assms(1) len by (rule wf_set_col)
  moreover have "rows t1 = map (\<lambda>r. (fst r, set_cells (columns t) (str ''Date'')
                             (coerce parse (column d t) (snd r ! d)) (snd r))) (rows t)"
    unfolding t1 by (simp add: rows_set_col len) (auto simp: to_datetime_def column_def intro!: nth_equalityI)
  ultimately show ?thesis using d that by blast
qed

lemma dropna_unique:
  assumes "col_index (columns t) n = Inr d"
  shows "dropna n t = Inr (t\<lparr>rows := filter (\<lambda>r. snd r ! d \<noteq> NA) (rows t)\<rparr>)"
proof -
  from assms have "positions (columns t) n = [d]"
    by (simp add: col_index_Inr_iff)
  then show ?thesis
    by (simp add: dropna_def)
qed

lemma is_stamp_not_NA: "is_stamp c \<Longrightarrow> c \<noteq> NA"
  by (cases c) auto

lemma remove_rows_props:
  assumes "wf_table t1" "col_index (columns t1) (str ''Date'') = Inr d"
    and "\<forall>r \<in> set (rows t1). snd r ! d = NA \<or> is_stamp (snd r ! d)"
    and "dropna (str ''Date'') (drop_duplicates t1) = Inr t2"
  shows "columns t2 = columns t1"
    and "rows t2 = filter (\<lambda>r. snd r ! d \<noteq> NA) (dedup [] (rows t1))"
    and "dated d t2"
    and "distinct (map snd (rows t2))"
proof -
  have c: "col_index (columns (drop_duplicates t1)) (str ''Date'') = Inr d"
    using assms(2) by (simp add: drop_duplicates_def)
  from assms(4) have t2: "t2 = (drop_duplicates t1)\<lparr>rows := filter (\<lambda>r. snd r ! d \<noteq> NA)
      (rows (drop_duplicates t1))\<rparr>"
    by (simp add: dropna_unique [OF c])
  show cols: "columns t2 = columns t1"
    and rows: "rows t2 = filter (\<lambda>r. snd r ! d \<noteq> NA) (dedup [] (rows t1))"
    by (simp_all add: t2 drop_duplicates_def)
  have sub: "set (rows t2) \<subseteq> set (rows t1)"
    using set_dedup [of "[]" "rows t1"] by (auto simp: rows)
  have "wf_table t2"
    using assms(1) sub by (auto simp: wf_table_iff cols)
  moreover have "is_stamp (snd r ! d)" if "r \<in> set (rows t2)" for r
  proof -
    from that have "r \<in> set (rows t1)" "snd r ! d \<noteq> NA"
      using sub by (auto simp: rows)
    with assms(3) show ?thesis by blast
  qed
  then have "list_all is_stamp (column d t2)"
    by (simp add: list_all_iff column_def)
  ultimately show "dated d t2"
    using assms(2) by (simp add: dated_def cols)
  show "distinct (map snd (rows t2))"
    unfolding rows by (simp add: distinct_map_filter distinct_dedup)
qed

lemma date_key_present: "list_all is_stamp cs \<Longrightarrow> None \<notin> set (map date_key cs)"
proof (induction cs)
  case Nil
  then show ?case by simp
next
  case (Cons c cs)
  then show ?case by (cases c) auto
qed

lemma dated_get_col: "dated d t \<Longrightarrow> get_col (str ''Date'') t = Inr (column d t)"
  by (simp add: dated_def get_col_def)

lemma column_take_rows:
  "set ix \<subseteq> {0..<length (rows t)} \<Longrightarrow> column d (take_rows ix t) = map (\<lambda>i. column d t ! i) ix"
  by (auto simp: column_def take_rows_def)

lemma sort_by_date_props:
  assumes "dated d t2" "sort_values tie date_key True (str ''Date'') t2 = Inr t3"
  shows "columns t3 = columns t2"
    and "rows t3 = map (\<lambda>i. rows t2 ! i) (argsort tie (dkeys d t2))"
    and "mset (rows t3) = mset (rows t2)"
    and "dated d t3"
    and "sorted (dkeys d t3)"
proof -
  let ?p = "argsort tie (dkeys d t2)"
  have present: "None \<notin> set (map date_key (column d t2))"
    using assms(1) by (intro date_key_present) (simp add: dated_def)
  have "nargsort tie True (map date_key (column d t2)) = ?p"
    by (simp add: nargsort_asc_present [OF present] dkeys_def comp_def)
  with assms have t3: "t3 = take_rows ?p t2"
    by (auto simp: sort_values_def dated_get_col)
  show "columns t3 = columns t2"
    by (simp add: t3 take_rows_def)
  show rows: "rows t3 = map (\<lambda>i. rows t2 ! i) ?p"
    by (simp add: t3 take_rows_def)
  have len: "length (dkeys d t2) = length (rows t2)"
    by (simp add: dkeys_def)
  show m: "mset (rows t3) = mset (rows t2)"
    unfolding rows by (rule map_nth_perm) (simp add: mset_argsort len)
  then have s: "set (rows t3) = set (rows t2)"
    by (rule mset_eq_setD)
  have col: "column d t3 = map (\<lambda>i. column d t2 ! i) ?p"
    unfolding t3 by (rule column_take_rows) (simp add: set_argsort len)
  show "dated d t3"
    using assms(1) s by (auto simp: dated_def wf_table_iff list_all_iff column_def t3 take_rows_def)
  have "dkeys d t3 = map (\<lambda>i. dkeys d t2 ! i) ?p"
    using len by (simp add: dkeys_def col set_argsort)
  then show "sorted (dkeys d t3)"
    by (simp add: sorted_argsort)
qed

lemma dated_set_col:
  assumes "dated d t" "length vs = length (rows t)" "m \<noteq> str ''Date''"
  shows "dated d (set_col m vs t)" and "column d (set_col m vs t) = column d t"
proof -
  from assms(1) have wf: "wf_table t" and d: "col_index (columns t) (str ''Date'') = Inr d"
    and st: "list_all is_stamp (column d t)"
    by (simp_all add: dated_def)
  show c: "column d (set_col m vs t) = column d t"
    using wf assms(2) d assms(3) by (rule set_col_keeps)
  show "dated d (set_col m vs t)"
    using wf_set_col [OF wf assms(2)] set_col_keeps(1) [OF wf assms(2) d assms(3)] st
    by (simp add: dated_def c)
qed

lemma derive_year_props:
  assumes "dated d t" "derive_year t = Inr t4"
  obtains ys where "map dt_year (column d t) = map Inr ys" "t4 = set_col (str ''Year'') ys t"
    "length ys = length (rows t)"
proof -
  from assms obtain ys where c: "collect (map dt_year (column d t)) = Inr ys"
    and t4: "t4 = set_col (str ''Year'') ys t"
    by (auto simp: derive_year_def dated_get_col ebind_Inr_iff)
  from c have m: "map dt_year (column d t) = map Inr ys"
    by (rule collect_InrD)
  then have "length (map dt_year (column d t)) = length (map Inr ys :: (error + cell) list)" by simp
  then have "length ys = length (rows t)" by simp
  with m t4 show ?thesis using that by blast
qed

lemma derive_month_props:
  assumes "dated d t" "derive_month t = Inr t5"
  obtains ms where "map dt_month_name (column d t) = map Inr ms" "t5 = set_col (str ''Month'') ms t"
    "length ms = length (rows t)"
proof -
  from assms obtain ms where c: "collect (map dt_month_name (column d t)) = Inr ms"
    and t5: "t5 = set_col (str ''Month'') ms t"
    by (auto simp: derive_month_def dated_get_col ebind_Inr_iff)
  from c have m: "map dt_month_name (column d t) = map Inr ms"
    by (rule collect_InrD)
  then have "length (map dt_month_name (column d t)) = length (map Inr ms :: (error + cell) list)" by simp
  then have "length ms = length (rows t)" by simp
  with m t5 show ?thesis using that by blast
qed

lemma derive_margin_props:
  assumes "derive_margin t = Inr t'"
  obtains pj rj mg where
    "col_index (columns t) (str ''ProfitGBP'') = Inr pj"
    "col_index (columns t) (str ''RevenueGBP'') = Inr rj"
    "map2 margin (column pj t) (column rj t) = map Inr mg"
    "t' = set_col (str ''Profit_Margin_%'') mg t"
    "length mg = length (rows t)"
proof -
  from assms obtain pj rj mg where pj: "col_index (columns t) (str ''ProfitGBP'') = Inr pj"
    and rj: "col_index (columns t) (str ''RevenueGBP'') = Inr rj"
    and c: "collect (map2 margin (column pj t) (column rj t)) = Inr mg"
    and t': "t' = set_col (str ''Profit_Margin_%'') mg t"
    by (auto simp: derive_margin_def ebind_Inr_iff get_col_Inr_iff)
  from c have m: "map2 margin (column pj t) (column rj t) = map Inr mg"
    by (rule collect_InrD)
  then have "length (map2 margin (column pj t) (column rj t)) = length (map Inr mg :: (error + cell) list)"
    by simp
  then have "length mg = length (rows t)" by simp
  with pj rj m t' show ?thesis using that by blast
qed

lemma clean_props:
  assumes "wf_table t" "clean tie parse t = Inr t'"
  obtains d and t1 :: table and t3 ys ms pj rj mg where
    "col_index (map normalize_name (columns t)) (str ''Date'') = Inr d"
    "rows t1 = map (\<lambda>r. (fst r, set_cells (map normalize_name (columns t)) (str ''Date'')
        (coerce parse (column d t) (snd r ! d)) (snd r))) (rows t)"
    "mset (rows t3) = mset (filter (\<lambda>r. snd r ! d \<noteq> NA) (dedup [] (rows t1)))"
    "columns t3 = map normalize_name (columns t)"
    "dated d t3" "sorted (dkeys d t3)" "distinct (map snd (rows t3))"
    "map dt_year (column d t3) = map Inr ys" "length ys = length (rows t3)"
    "map dt_month_name (column d t3) = map Inr ms" "length ms = length (rows t3)"
    "col_index (columns (set_col (str ''Month'') ms (set_col (str ''Year'') ys t3))) (str ''ProfitGBP'') = Inr pj"
    "col_index (columns (set_col (str ''Month'') ms (set_col (str ''Year'') ys t3))) (str ''RevenueGBP'') = Inr rj"
    "map2 margin (column pj (set_col (str ''Month'') ms (set_col (str ''Year'') ys t3)))
        (column rj (set_col (str ''Month'') ms (set_col (str ''Year'') ys t3))) = map Inr mg"
    "length mg = length (rows t3)"
    "t' = set_col (str ''Profit_Margin_%'') mg (set_col (str ''Month'') ms (set_col (str ''Year'') ys t3))"
proof -
  from assms(2) obtain t1 t2 t3 t4 t5 where
    s1: "convert_date parse (normalize_columns t) = Inr t1" and
    s2: "dropna (str ''Date'') (drop_duplicates t1) = Inr t2" and
    s3: "sort_values tie date_key True (str ''Date'') t2 = Inr t3" and
    s4: "derive_year t3 = Inr t4" and
    s5: "derive_month t4 = Inr t5" and
    s6: "derive_margin t5 = Inr t'"
    by (rule clean_stages)
  let ?cols = "map normalize_name (columns t)"
  have cn: "columns (normalize_columns t) = ?cols" and rn: "rows (normalize_columns t) = rows t"
    by (simp_all add: normalize_columns_def)
  from convert_date_props [OF wf_normalize_columns [OF assms(1)] s1] obtain d where
    d0: "col_index (columns (normalize_columns t)) (str ''Date'') = Inr d"
    and c0: "columns t1 = columns (normalize_columns t)" and wf1: "wf_table t1"
    and r0: "rows t1 = map (\<lambda>r. (fst r, set_cells (columns (normalize_columns t)) (str ''Date'')
        (coerce parse (column d (normalize_columns t)) (snd r ! d)) (snd r))) (rows (normalize_columns t))"
    by blast
  have cd: "column d (normalize_columns t) = column d t"
    by (simp add: column_def rn)
  have d: "col_index ?cols (str ''Date'') = Inr d"
    using d0 by (simp only: cn)
  have c1: "columns t1 = ?cols"
    using c0 by (simp only: cn)
  have r1: "rows t1 = map (\<lambda>r. (fst r, set_cells ?cols (str ''Date'')
        (coerce parse (column d t) (snd r ! d)) (snd r))) (rows t)"
    using r0 by (simp only: cn rn cd)
  have dlt: "d < length ?cols" and dn: "?cols ! d = str ''Date''" and din: "str ''Date'' \<in> set ?cols"
    using col_index_InrD(1,2,3) [OF d] by simp_all
  have st1: "\<forall>r \<in> set (rows t1). snd r ! d = NA \<or> is_stamp (snd r ! d)"
  proof
    fix r assume "r \<in> set (rows t1)"
    then obtain r0 where r0: "r0 \<in> set (rows t)"
      and r: "snd r = set_cells ?cols (str ''Date'') (coerce parse (column d t) (snd r0 ! d)) (snd r0)"
      by (auto simp: r1)
    from r0 assms(1) have "length (snd r0) = length ?cols"
      by (simp add: wf_table_iff)
    with dlt dn din have "snd r ! d = coerce parse (column d t) (snd r0 ! d)"
      by (simp add: r nth_set_cells)
    then show "snd r ! d = NA \<or> is_stamp (snd r ! d)"
      using coerce_cases [of parse "column d t" "snd r0 ! d"] by simp
  qed
  have d1: "col_index (columns t1) (str ''Date'') = Inr d"
    by (simp add: c1 d)
  note p2 = remove_rows_props [OF wf1 d1 st1 s2]
  note p3 = sort_by_date_props [OF p2(3) s3]
  have "mset (map snd (rows t3)) = mset (map snd (rows t2))"
    by (simp add: p3(3))
  from mset_eq_imp_distinct_iff [OF this] p2(4)
  have dist3: "distinct (map snd (rows t3))" by simp
  from p3(4) s4 obtain ys where ys: "map dt_year (column d t3) = map Inr ys"
    and t4: "t4 = set_col (str ''Year'') ys t3" and ly: "length ys = length (rows t3)"
    by (rule derive_year_props)
  have dated4: "dated d t4" and col4: "column d t4 = column d t3"
    unfolding t4 using dated_set_col [OF p3(4) ly, of "str ''Year''"] by simp_all
  have l4: "length (rows t4) = length (rows t3)"
    by (simp add: t4 length_rows_set_col ly)
  from dated4 s5 obtain ms where ms: "map dt_month_name (column d t4) = map Inr ms"
    and t5: "t5 = set_col (str ''Month'') ms t4" and lm: "length ms = length (rows t4)"
    by (rule derive_month_props)
  have l5: "length (rows t5) = length (rows t3)"
    by (simp add: t5 length_rows_set_col lm l4)
  from s6 obtain pj rj mg where
    pj: "col_index (columns t5) (str ''ProfitGBP'') = Inr pj" and
    rj: "col_index (columns t5) (str ''RevenueGBP'') = Inr rj" and
    mg: "map2 margin (column pj t5) (column rj t5) = map Inr mg" and
    t': "t' = set_col (str ''Profit_Margin_%'') mg t5" and
    lg: "length mg = length (rows t5)"
    by (rule derive_margin_props)
  show ?thesis
  proof (rule that [of d t1 t3 ys ms pj rj mg])
    show "col_index ?cols (str ''Date'') = Inr d" by (rule d)
    show "rows t1 = map (\<lambda>r. (fst r, set_cells ?cols (str ''Date'')
        (coerce parse (column d t) (snd r ! d)) (snd r))) (rows t)" by (rule r1)
    show "mset (rows t3) = mset (filter (\<lambda>r. snd r ! d \<noteq> NA) (dedup [] (rows t1)))"
      using p3(3) p2(2) by simp
    show "columns t3 = ?cols" using p3(1) p2(1) c1 by simp
    show "dated d t3" by (rule p3(4))
    show "sorted (dkeys d t3)" by (rule p3(5))
    show "distinct (map snd (rows t3))" by (rule dist3)
    show "map dt_year (column d t3) = map Inr ys" by (rule ys)
    show "length ys = length (rows t3)" by (rule ly)
    show "map dt_month_name (column d t3) = map Inr ms" using ms col4 by simp
    show "length ms = length (rows t3)" using lm l4 by simp
    show "col_index (columns (set_col (str ''Month'') ms (set_col (str ''Year'') ys t3))) (str ''ProfitGBP'') = Inr pj"
      using pj by (simp add: t5 t4)
    show "col_index (columns (set_col (str ''Month'') ms (set_col (str ''Year'') ys t3))) (str ''RevenueGBP'') = Inr rj"
      using rj by (simp add: t5 t4)
    show "map2 margin (column pj (set_col (str ''Month'') ms (set_col (str ''Year'') ys t3)))
        (column rj (set_col (str ''Month'') ms (set_col (str ''Year'') ys t3))) = map Inr mg"
      using mg by (simp add: t5 t4)
    show "length mg = length (rows t3)" using lg l5 by simp
    show "t' = set_col (str ''Profit_Margin_%'') mg (set_col (str ''Month'') ms (set_col (str ''Year'') ys t3))"
      by (simp add: t' t5 t4)
  qed
qed

lemma stamps_of:
  "list_all is_stamp cs \<Longrightarrow> \<exists>ds. cs = map Stamp ds \<and> map (\<lambda>c. the (date_key c)) cs = map ts_key ds"
proof (induction cs)
  case Nil
  then show ?case by simp
next
  case (Cons c cs)
  then obtain ds where ds: "cs = map Stamp ds" "map (\<lambda>c. the (date_key c)) cs = map ts_key ds"
    by auto
  from Cons.prems obtain x where "c = Stamp x"
    by (cases c) auto
  with ds have "c # cs = map Stamp (x # ds) \<and> map (\<lambda>c. the (date_key c)) (c # cs) = map ts_key (x # ds)"
    by simp
  then show ?case by (rule exI [where x = "x # ds"])
qed

lemma distinct_set_col_new:
  assumes "n \<notin> set (columns t)" "length vs = length (rows t)" "distinct (map snd (rows t))"
  shows "distinct (map snd (rows (set_col n vs t)))"
proof -
  have "map snd (rows (set_col n vs t)) = map (\<lambda>i. snd (rows t ! i) @ [vs ! i]) [0..<length (rows t)]"
    using assms(1,2) by (simp add: rows_set_col set_cells_def comp_def)
  moreover have "distinct (map (\<lambda>i. snd (rows t ! i) @ [vs ! i]) [0..<length (rows t)])"
    using assms(3) by (auto simp: distinct_conv_nth)
  ultimately show ?thesis by simp
qed

lemma margin_zero_revenue:
  assumes "margin c (Num (Fin 0)) = Inr x"
  shows "(x = NA \<longleftrightarrow> c = NA \<or> c = Num (Fin 0)) \<and>
         (\<forall>a. c = Num (Fin a) \<and> 0 < a \<longrightarrow> x = Num PInf) \<and>
         (\<forall>a. c = Num (Fin a) \<and> a < 0 \<longrightarrow> x = Num NInf)"
proof (cases c)
  case (Num n)
  with assms show ?thesis
    by (cases n) (auto simp: margin_def fdiv_def fmul_def split: if_splits)
qed (use assms in \<open>auto simp: margin_def fdiv_def fmul_def\<close>)

lemma wf_derived:
  assumes "wf_table t3" "length ys = length (rows t3)" "length ms = length (rows t3)"
  shows "wf_table (set_col m ms (set_col y ys t3))"
    and "length (rows (set_col m ms (set_col y ys t3))) = length (rows t3)"
proof -
  have l4: "length ms = length (rows (set_col y ys t3))"
    by (simp add: length_rows_set_col assms)
  show "wf_table (set_col m ms (set_col y ys t3))"
    using wf_set_col [OF assms(1,2)] l4 by (rule wf_set_col)
  show "length (rows (set_col m ms (set_col y ys t3))) = length (rows t3)"
    by (simp add: length_rows_set_col assms)
qed

lemma map2_Inr_nth:
  assumes "map2 f xs ys = map Inr zs" "i < length zs"
  shows "f (xs ! i) (ys ! i) = Inr (zs ! i)"
proof -
  have len: "length (map2 f xs ys) = length zs"
    using assms(1) by (metis length_map)
  then have i: "i < length xs" "i < length ys"
    using assms(2) by simp_all
  have "map2 f xs ys ! i = map Inr zs ! i"
    by (simp add: assms(1))
  then show ?thesis
    using i assms(2) by simp
qed

subsection \<open>The cleaning pipeline on the concrete inputs\<close>

lemmas clean_eval =
  clean_def normalize_columns_def convert_date_def get_col_def col_index_def positions_def
  column_def set_col_def set_cells_def to_datetime_def coerce_def drop_duplicates_def dropna_def
  sort_values_def take_rows_def nargsort_def argsort_def derive_year_def derive_month_def
  derive_margin_def margin_def fdiv_def fmul_def ts_key_def normalize_name_def str_def strip_def
  strip_parens_def isspace_def pound_def stable_tie_def no_parse_def demo_parse_def Let_def

lemma clean_sales: "clean stable_tie no_parse sales = Inr sales_clean"
  by (simp add: sales_def sales_clean_def clean_eval)

lemma wf_sales: "wf_table sales"
  by (simp add: wf_table_def sales_def)

lemma clean_zero_revenue: "clean stable_tie no_parse zero_revenue_table = Inr zero_revenue_clean"
  by (simp add: zero_revenue_table_def zero_revenue_clean_def clean_eval)

lemma clean_year_table: "clean stable_tie no_parse year_table = Inr year_clean"
  by (simp add: year_table_def year_clean_def clean_eval)

lemma clean_three_rows: "clean stable_tie demo_parse three_rows_table = Inr three_rows_clean"
  by (simp add: three_rows_table_def three_rows_clean_def clean_eval)

lemmas lookup_eval = get_col_def col_index_def positions_def column_def str_def

subsection \<open>Grouping\<close>

lemma distinct_group_keys: "distinct (group_keys ks rs)"
  by (simp add: group_keys_def)

lemma set_group_keys: "set (group_keys ks (rows t)) = groups ks t"
  by (simp add: group_keys_def groups_def)

lemma groupby_agg_props:
  assumes "groupby_agg by name agg t = Inr s"
  obtains ks v where
    "map (col_index (columns t)) by = map Inr ks"
    "col_index (columns t) name = Inr v"
    "map fst s = group_keys ks (rows t)"
    "\<forall>g \<in> set s. agg (group_values ks v (rows t) (fst g)) = Inr (snd g)"
proof -
  from assms obtain ks v where
    ks: "collect (map (col_index (columns t)) by) = Inr ks" and
    v: "col_index (columns t) name = Inr v" and
    c: "collect (map (\<lambda>k. ebind (agg (group_values ks v (rows t) k)) (\<lambda>x. Inr (k, x)))
          (group_keys ks (rows t))) = Inr s"
    unfolding groupby_agg_def ebind_Inr_iff by blast
  let ?f = "\<lambda>k. ebind (agg (group_values ks v (rows t) k)) (\<lambda>x. Inr (k, x))"
  from c have m: "map ?f (group_keys ks (rows t)) = map Inr s"
    by (rule collect_InrD)
  from arg_cong [OF m, of length]
  have len: "length (group_keys ks (rows t)) = length s"
    by simp
  have nth: "?f (group_keys ks (rows t) ! i) = Inr (s ! i)" if "i < length s" for i
  proof -
    have "map ?f (group_keys ks (rows t)) ! i = map Inr s ! i"
      by (simp only: m)
    with that len show ?thesis by simp
  qed
  have fst: "fst (s ! i) = group_keys ks (rows t) ! i"
    and agg: "agg (group_values ks v (rows t) (fst (s ! i))) = Inr (snd (s ! i))"
    if "i < length s" for i
  proof -
    from nth [OF that] obtain x where
      "agg (group_values ks v (rows t) (group_keys ks (rows t) ! i)) = Inr x"
      "s ! i = (group_keys ks (rows t) ! i, x)"
      by (auto simp: ebind_Inr_iff)
    then show "fst (s ! i) = group_keys ks (rows t) ! i"
      and "agg (group_values ks v (rows t) (fst (s ! i))) = Inr (snd (s ! i))"
      by simp_all
  qed
  have keys: "map fst s = group_keys ks (rows t)"
    using len fst by (intro nth_equalityI) simp_all
  have "\<forall>g \<in> set s. agg (group_values ks v (rows t) (fst g)) = Inr (snd g)"
  proof
    fix g assume "g \<in> set s"
    then obtain i where "i < length s" "g = s ! i"
      by (auto simp: in_set_conv_nth)
    with agg show "agg (group_values ks v (rows t) (fst g)) = Inr (snd g)"
      by simp
  qed
  with collect_InrD [OF ks] v keys show ?thesis
    by (rule that)
qed

subsection \<open>Descending order\<close>

lemma nargsort_desc_keys:
  fixes items :: "'k::linorder option list"
  obtains xs n where
    "map (\<lambda>i. items ! i) (nargsort tie False items) = map Some xs @ replicate n None"
    "sorted (rev xs)"
proof -
  let ?n = "length items"
  let ?A = "filter (\<lambda>i. items ! i \<noteq> None) [0..<?n]"
  let ?B = "filter (\<lambda>i. items ! i = None) [0..<?n]"
  let ?K = "map (\<lambda>i. the (items ! i)) ?A"
  let ?p = "argsort tie (rev ?K)"
  let ?xs = "rev (map (\<lambda>i. rev ?K ! i) ?p)"
  have lenK: "length ?K = length ?A" by simp
  have p: "set ?p = {0..<length ?A}"
    by (simp add: set_argsort)
  have A: "items ! (rev ?A ! i) = Some (rev ?K ! i)" if "i < length ?A" for i
  proof -
    have "rev ?A ! i \<in> set ?A"
      using that by (metis length_rev nth_mem set_rev)
    then have "items ! (rev ?A ! i) \<noteq> None" by simp
    moreover have "rev ?K ! i = the (items ! (rev ?A ! i))"
      using that by (simp add: rev_map)
    ultimately show ?thesis by simp
  qed
  have 1: "map (\<lambda>i. items ! i) (rev (map (\<lambda>i. rev ?A ! i) ?p)) = map Some ?xs"
    using p A by (simp add: rev_map)
  have 2: "map (\<lambda>i. items ! i) ?B = replicate (length ?B) None"
    by (simp add: map_replicate_const [symmetric] cong: map_cong)
  have "map (\<lambda>i. items ! i) (nargsort tie False items) = map Some ?xs @ replicate (length ?B) None"
    unfolding nargsort_def Let_def using 1 2 by simp
  moreover have "sorted (rev ?xs)"
    by (simp add: sorted_argsort)
  ultimately show ?thesis using that by blast
qed

lemma takeWhile_present:
  "takeWhile (\<lambda>k. k \<noteq> None) (map Some xs @ replicate n None) = map Some xs"
  by (induction xs) (simp_all add: takeWhile_replicate)

lemma dropWhile_present:
  "dropWhile (\<lambda>k. k \<noteq> None) (map Some xs @ replicate n None) = replicate n None"
  by (induction xs) (simp_all add: dropWhile_replicate)

subsection \<open>Float64 arithmetic\<close>

lemma floor_rat_numeral [simp]: "\<lfloor>(numeral a :: rat) / numeral b\<rfloor> = numeral a div numeral b"
  by (metis floor_divide_of_int_eq of_int_numeral)

lemma ceiling_rat_numeral [simp]: "\<lceil>(numeral a :: rat) / numeral b\<rceil> = - (- numeral a div numeral b)"
  unfolding ceiling_def by (metis floor_divide_of_int_eq of_int_numeral of_int_minus minus_divide_left)

lemma bitlen_numeral [simp]:
  "bitlen 0 = 0" "bitlen 1 = 1" "bitlen (numeral k) = 1 + bitlen (numeral k div 2)"
  by (simp_all add: bitlen.simps)

lemmas float_eval =
  round64_def ilog2_def pow2_def round_half_even_def add64_def sub64_def div64_def
  kahan_step_def fadd_def fdiv_def Let_def

lemma round64_zero [simp]: "round64 0 = Fin 0"
  by (simp add: round64_def)

lemma bitlen_pow2: "bitlen (2 ^ n) = int n + 1"
proof (induction n)
  case 0
  show ?case by (simp add: bitlen.simps)
next
  case (Suc n)
  have "bitlen (2 ^ Suc n) = 1 + bitlen (2 ^ Suc n div 2)"
    by (subst bitlen.simps) simp
  with Suc show ?case by simp
qed

lemma ilog2_pow2: "ilog2 (2 ^ n) = int n"
  by (simp add: ilog2_def bitlen_pow2)

lemma round64_pow2:
  assumes "52 \<le> n"
  shows "round64 (2 ^ n) = (if n < 1024 then Fin (2 ^ n) else PInf)"
proof -
  have q: "max (ilog2 \<bar>2 ^ n\<bar>) (- 1022) - 52 = int (n - 52)"
    using assms by (simp add: ilog2_pow2)
  have p: "pow2 (int (n - 52)) = 2 ^ (n - 52)"
    by (simp add: pow2_def)
  have d: "(2::rat) ^ n / 2 ^ (n - 52) = 2 ^ 52"
    using assms by (simp add: power_diff)
  have r: "round_half_even (2 ^ 52) = 2 ^ 52"
    by (simp add: round_half_even_def Let_def)
  have "(2::rat) ^ 52 * 2 ^ (n - 52) = 2 ^ (52 + (n - 52))"
    by (simp only: power_add)
  also have "52 + (n - 52) = n"
    using assms by simp
  finally have m: "(2::rat) ^ 52 * 2 ^ (n - 52) = 2 ^ n" .
  have "pow2 1024 = 2 ^ 1024"
    unfolding pow2_def by (simp only: zero_le_numeral if_True nat_numeral)
  moreover have "(2::rat) ^ 1024 \<le> 2 ^ n \<longleftrightarrow> 1024 \<le> n"
    by (rule power_increasing_iff) simp
  ultimately have c: "pow2 1024 \<le> (2::rat) ^ n \<longleftrightarrow> 1024 \<le> n"
    by (simp only:)
  have "round64 (2 ^ n) =
      (if pow2 1024 \<le> rat_of_int (round_half_even (\<bar>2 ^ n\<bar> / pow2 (int (n - 52)))) * pow2 (int (n - 52))
       then PInf
       else Fin (rat_of_int (round_half_even (\<bar>2 ^ n\<bar> / pow2 (int (n - 52)))) * pow2 (int (n - 52))))"
    unfolding round64_def Let_def q by simp
  also have "\<bar>(2::rat) ^ n\<bar> / pow2 (int (n - 52)) = 2 ^ 52"
    by (simp only: p power_abs abs_numeral d)
  finally show ?thesis
    by (simp only: r p of_int_power of_int_numeral m c) simp
qed

lemma round64_huge: "round64 huge = Fin huge" "round64 (2 * huge) = PInf"
proof -
  show "round64 huge = Fin huge"
    unfolding huge_def by (subst round64_pow2) simp_all
  have "2 * huge = 2 ^ 1024"
    unfolding huge_def by simp
  then show "round64 (2 * huge) = PInf"
    by (simp only:) (subst round64_pow2, simp_all)
qed

lemma example_mean:
  "exact_sums 0 [Fin 10, Fin 30]" "round64 (exact_mean [Fin 10, Fin 30]) = Fin 20"
  by (simp_all add: exact_mean_def float_eval)

subsection \<open>Mean and sum\<close>

lemma to_f64_Inr_iff: "to_f64 c = Inr v \<longleftrightarrow> (c = NA \<and> v = None) \<or> (\<exists>x. c = Num x \<and> v = Some x)"
  by (cases c) auto

lemma group_loop_numbers:
  "collect (map to_f64 cs) = Inr vs \<Longrightarrow>
   group_loop st vs = (fst st + length (numbers cs), foldl kahan_step (snd st) (numbers cs))"
proof (induction cs arbitrary: vs st)
  case Nil
  then show ?case by simp
next
  case (Cons c cs)
  from Cons.prems obtain v ws where
    v: "to_f64 c = Inr v" and ws: "collect (map to_f64 cs) = Inr ws" and vs: "vs = v # ws"
    by (cases "to_f64 c"; cases "collect (map to_f64 cs)") auto
  from v show ?case
    unfolding to_f64_Inr_iff
  proof (elim disjE conjE exE)
    assume "c = NA" "v = None"
    then show ?thesis
      using Cons.IH [OF ws, of st] by (simp add: vs)
  next
    fix x assume "c = Num x" "v = Some x"
    then show ?thesis
      using Cons.IH [OF ws, of "(Suc (fst st), kahan_step (snd st) x)"] by (simp add: vs)
  qed
qed

lemma agg_mean_float_mean: "agg_mean cs = Inr x \<Longrightarrow> x = float_mean (numbers cs)"
  by (auto simp: agg_mean_def ebind_Inr_iff Let_def group_loop_numbers float_mean_def float_sum_def)

lemma agg_sum_float_sum: "agg_sum Float64 cs = Inr x \<Longrightarrow> x = of_f64 (float_sum (numbers cs))"
  by (auto simp: agg_sum_def ebind_Inr_iff group_loop_numbers float_sum_def)

lemma kahan_step_exact:
  "round64 a = Fin a \<Longrightarrow> round64 (s + a) = Fin (s + a) \<Longrightarrow>
   kahan_step (Some (Fin s), Some (Fin 0)) (Fin a) = (Some (Fin (s + a)), Some (Fin 0))"
  by (simp add: kahan_step_def Let_def sub64_def add64_def fadd_def)

lemma foldl_kahan_exact:
  "exact_sums s xs \<Longrightarrow>
   foldl kahan_step (Some (Fin s), Some (Fin 0)) xs = (Some (Fin (s + total xs)), Some (Fin 0))"
proof (induction s xs rule: exact_sums.induct)
  case (2 s a xs)
  then show ?case by (simp add: kahan_step_exact add.assoc)
qed simp_all

lemma float_sum_exact: "exact_sums 0 xs \<Longrightarrow> float_sum xs = Some (Fin (total xs))"
  by (simp add: float_sum_def foldl_kahan_exact)

lemma float_mean_exact:
  "exact_sums 0 xs \<Longrightarrow> xs \<noteq> [] \<Longrightarrow> float_mean xs = Num (round64 (exact_mean xs))"
  by (simp add: float_mean_def float_sum_exact div64_def fdiv_def exact_mean_def)

lemma wrap64_add: "wrap64 (wrap64 a + b) = wrap64 (a + b)"
proof -
  define M :: int where "M = 2 ^ 64"
  define H :: int where "H = 2 ^ 63"
  have w: "wrap64 n = (n + H) mod M - H" for n
    by (simp add: wrap64_def M_def H_def)
  have "((a + H) mod M - H + b + H) mod M = ((a + H) mod M + b) mod M"
    by (simp add: algebra_simps)
  also have "\<dots> = (a + H + b) mod M"
    by (rule mod_add_left_eq)
  also have "a + H + b = a + b + H"
    by simp
  finally show ?thesis
    by (simp only: w)
qed

lemma foldl_wrap64: "foldl (\<lambda>sumx val. wrap64 (sumx + val)) (wrap64 a) ns = wrap64 (a + sum_list ns)"
  by (induction ns arbitrary: a) (simp_all add: wrap64_add add.assoc)

lemma wrap64_zero: "wrap64 0 = 0"
  by (simp add: wrap64_def)

lemma int64_sum: "foldl (\<lambda>sumx val. wrap64 (sumx + val)) 0 ns = wrap64 (sum_list ns)"
  using foldl_wrap64 [of 0 ns] by (simp add: wrap64_zero)

lemma wrap64_id: "- (2 ^ 63) \<le> n \<Longrightarrow> n < 2 ^ 63 \<Longrightarrow> wrap64 n = n"
  by (simp add: wrap64_def)

lemma to_i64_Inr_iff:
  "to_i64 c = Inr n \<longleftrightarrow> (\<exists>a. c = Num (Fin a) \<and> of_int n = a \<and> - (2 ^ 63) \<le> a \<and> a < 2 ^ 63)"
proof (cases c)
  case (Num x)
  then show ?thesis by (cases x) auto
qed simp_all

lemma collect_to_i64_total:
  "collect (map to_i64 cs) = Inr ns \<Longrightarrow> of_int (sum_list ns) = total (numbers cs)"
proof (induction cs arbitrary: ns)
  case Nil
  then show ?case by simp
next
  case (Cons c cs)
  from Cons.prems obtain n ms where
    n: "to_i64 c = Inr n" and ms: "collect (map to_i64 cs) = Inr ms" and ns: "ns = n # ms"
    by (cases "to_i64 c"; cases "collect (map to_i64 cs)") auto
  from n obtain a where "c = Num (Fin a)" "of_int n = a"
    by (auto simp: to_i64_Inr_iff)
  with Cons.IH [OF ms] show ?case
    by (simp add: ns)
qed

lemma agg_sum_int64:
  assumes "agg_sum Int64 cs = Inr x"
  shows "\<exists>n. of_int n = total (numbers cs) \<and> x = Num (Fin (of_int (wrap64 n)))"
proof -
  from assms obtain ns where ns: "collect (map to_i64 cs) = Inr ns"
    and x: "x = Num (Fin (of_int (foldl (\<lambda>sumx val. wrap64 (sumx + val)) 0 ns)))"
    by (auto simp: agg_sum_def ebind_Inr_iff)
  from collect_to_i64_total [OF ns] x show ?thesis
    by (auto simp: int64_sum)
qed

lemma agg_sum_int64_exact:
  assumes "agg_sum Int64 cs = Inr x" "in_int64 (total (numbers cs))"
  shows "x = Num (Fin (total (numbers cs)))"
proof -
  from agg_sum_int64 [OF assms(1)] obtain n where
    n: "of_int n = total (numbers cs)" and x: "x = Num (Fin (of_int (wrap64 n)))"
    by blast
  from assms(2) n have "(of_int (- (2 ^ 63)) :: rat) \<le> of_int n" "(of_int n :: rat) < of_int (2 ^ 63)"
    by (simp_all add: in_int64_def)
  then have "- (2 ^ 63) \<le> n" "n < 2 ^ 63"
    by (simp_all only: of_int_le_iff of_int_less_iff)
  then have "wrap64 n = n" by (rule wrap64_id)
  with n x show ?thesis by simp
qed

lemma agg_mean_number: "agg_mean cs = Inr x \<Longrightarrow> is_number x"
  by (auto simp: agg_mean_def ebind_Inr_iff Let_def) (metis is_number.simps(1,2) of_f64.elims)

lemma agg_sum_number: "agg_sum dt cs = Inr x \<Longrightarrow> is_number x"
  by (cases dt) (auto simp: agg_sum_def ebind_Inr_iff, metis is_number.simps(1,2) of_f64.elims)

lemma agg_sum_exact:
  "agg_sum dt cs = Inr x \<Longrightarrow> sums_exact dt (numbers cs) \<Longrightarrow> x = Num (Fin (total (numbers cs)))"
proof (cases dt)
  case Int64
  then show "agg_sum dt cs = Inr x \<Longrightarrow> sums_exact dt (numbers cs) \<Longrightarrow> ?thesis"
    by (simp add: sums_exact_def agg_sum_int64_exact)
next
  case Float64
  assume "agg_sum dt cs = Inr x" "sums_exact dt (numbers cs)"
  with Float64 have "x = of_f64 (float_sum (numbers cs))" "exact_sums 0 (numbers cs)"
    by (simp_all add: sums_exact_def agg_sum_float_sum)
  then show ?thesis
    by (simp add: float_sum_exact)
qed

subsection \<open>The order of a descending series\<close>

lemma num_key_le: "num_key a \<le> num_key b \<longleftrightarrow> num_le a b"
  by (cases a; cases b) auto

lemma value_key_None: "is_number c \<Longrightarrow> value_key c = None \<Longrightarrow> c = NA"
  by (cases c) auto

lemma value_key_Some: "value_key c = Some k \<Longrightarrow> \<exists>a. c = Num a \<and> num_key a = k"
  by (cases c) auto

lemma desc_sorted_wrt:
  assumes "map value_key vs = map Some xs @ replicate n None" "sorted (rev xs)"
    and "list_all is_number vs"
  shows "sorted_wrt not_below vs"
  unfolding sorted_wrt_iff_nth_less
proof (intro allI impI)
  fix i j assume ij: "i < j" "j < length vs"
  have len: "length vs = length xs + n"
    using arg_cong [OF assms(1), of length] by simp
  have nth: "value_key (vs ! k) = (map Some xs @ replicate n None) ! k" if "k < length vs" for k
    using that arg_cong [OF assms(1), of "\<lambda>l. l ! k"] by simp
  show "not_below (vs ! i) (vs ! j)"
  proof (cases "j < length xs")
    case True
    with ij len nth [of i] nth [of j]
    have "value_key (vs ! i) = Some (xs ! i)" "value_key (vs ! j) = Some (xs ! j)"
      by (simp_all add: nth_append)
    then obtain a b where ab: "vs ! i = Num a" "num_key a = xs ! i" "vs ! j = Num b" "num_key b = xs ! j"
      by (metis value_key_Some)
    have "xs ! j \<le> xs ! i"
      using sorted_rev_nth_mono [OF assms(2), of i j] ij True by simp
    with ab show ?thesis
      by (simp flip: num_key_le)
  next
    case False
    with ij len nth [of j] have "value_key (vs ! j) = None"
      by (simp add: nth_append)
    moreover from assms(3) ij have "is_number (vs ! j)"
      by (simp add: list_all_length)
    ultimately have "vs ! j = NA"
      by (intro value_key_None)
    then show ?thesis by simp
  qed
qed

lemma not_below_of_keys:
  assumes "is_number x" "is_number x'"
    and "value_key x' = None \<or> (\<exists>a b. value_key x' = Some a \<and> value_key x = Some b \<and> a \<le> b)"
  shows "not_below x x'"
  using assms(3)
proof
  assume "value_key x' = None"
  with assms(2) have "x' = NA" by (rule value_key_None)
  then show ?thesis by simp
next
  assume "\<exists>a b. value_key x' = Some a \<and> value_key x = Some b \<and> a \<le> b"
  then obtain a b where "value_key x' = Some a" "value_key x = Some b" "a \<le> b"
    by blast
  then obtain p q where "x' = Num p" "num_key p = a" "x = Num q" "num_key q = b" "a \<le> b"
    by (metis value_key_Some)
  then show ?thesis
    by (simp flip: num_key_le)
qed

subsection \<open>Sorting a series\<close>

lemma mset_sort_series: "mset (sort_series tie s) = mset s"
  unfolding sort_series_def
  by (rule map_nth_perm) (simp add: mset_nargsort)

lemma sort_series_desc:
  obtains xs n where
    "map (\<lambda>g. value_key (snd g)) (sort_series tie s) = map Some xs @ replicate n None"
    "sorted (rev xs)"
proof -
  let ?items = "map (\<lambda>g. value_key (snd g)) s"
  have "set (nargsort tie False ?items) = set [0..<length ?items]"
    using mset_nargsort [of tie False ?items] by (rule mset_eq_setD)
  then have "\<forall>i \<in> set (nargsort tie False ?items). i < length s"
    by simp
  then have "map (\<lambda>g. value_key (snd g)) (sort_series tie s)
      = map (\<lambda>i. ?items ! i) (nargsort tie False ?items)"
    by (simp add: sort_series_def)
  moreover obtain xs n where
    "map (\<lambda>i. ?items ! i) (nargsort tie False ?items) = map Some xs @ replicate n None"
    "sorted (rev xs)"
    by (rule nargsort_desc_keys)
  ultimately show ?thesis
    using that by simp
qed

lemma desc_head_max:
  fixes xs :: "'k::linorder list"
  assumes "ks = map Some xs @ replicate n None" "sorted (rev xs)" "k \<in> set ks"
  shows "k = None \<or> (\<exists>a b. k = Some a \<and> hd ks = Some b \<and> a \<le> b)"
proof (cases k)
  case None
  then show ?thesis by simp
next
  case (Some a)
  with assms(1,3) have a: "a \<in> set xs" by auto
  then have ne: "xs \<noteq> []" by auto
  then have "hd ks = Some (hd xs)"
    by (simp add: assms(1) hd_append hd_map)
  moreover have "a \<le> hd xs"
    using assms(2) a by (cases xs) (auto simp: sorted_append)
  ultimately show ?thesis using Some by simp
qed

lemma length_key_of [simp]: "length (key_of ks r) = length ks"
  by (simp add: key_of_def)

lemma num_key_Fin_le: "num_key (Fin a) \<le> num_key (Fin b) \<longleftrightarrow> a \<le> b"
  by auto

lemma peak_month_props:
  assumes "peak_month tie dt t = Inr res"
  obtains y m v s where
    "col_index (columns t) (str ''Year'') = Inr y"
    "col_index (columns t) (str ''Month'') = Inr m"
    "col_index (columns t) (str ''RevenueGBP'') = Inr v"
    "map fst s = group_keys [y, m] (rows t)"
    "\<forall>g \<in> set s. agg_sum dt (group_values [y, m] v (rows t) (fst g)) = Inr (snd g)"
    "columns res = [str ''Year'', str ''Month'', str ''RevenueGBP'']"
    "s = [] \<longrightarrow> rows res = []"
    "s \<noteq> [] \<longrightarrow> (\<exists>i < length s. rows res = [(i, fst (s ! i) @ [snd (s ! i)])] \<and>
       (\<forall>g \<in> set s. value_key (snd g) = None \<or>
          (\<exists>a b. value_key (snd g) = Some a \<and> value_key (snd (s ! i)) = Some b \<and> a \<le> b)))"
proof -
  let ?by = "[str ''Year'', str ''Month'']"
  from assms obtain s f where
    s: "groupby_agg ?by (str ''RevenueGBP'') (agg_sum dt) t = Inr s" and
    f: "sort_values tie value_key False (str ''RevenueGBP'') (reset_index ?by (str ''RevenueGBP'') s) = Inr f"
    and res: "res = head 1 f"
    unfolding peak_month_def ebind_Inr_iff by blast
  from s obtain ks v where
    ks: "map (col_index (columns t)) ?by = map Inr ks" and
    v: "col_index (columns t) (str ''RevenueGBP'') = Inr v" and
    keys: "map fst s = group_keys ks (rows t)" and
    vals: "\<forall>g \<in> set s. agg_sum dt (group_values ks v (rows t) (fst g)) = Inr (snd g)"
    by (rule groupby_agg_props)
  from ks obtain y m where y: "col_index (columns t) (str ''Year'') = Inr y"
    and m: "col_index (columns t) (str ''Month'') = Inr m" and kym: "ks = [y, m]"
    by (cases ks; cases "tl ks") auto
  let ?F = "reset_index ?by (str ''RevenueGBP'') s"
  have len2: "length (fst g) = 2" if "g \<in> set s" for g
  proof -
    from that have "fst g \<in> set (group_keys ks (rows t))"
      by (metis keys image_eqI set_map)
    then show ?thesis
      by (auto simp: set_group_keys groups_def kym)
  qed
  have colF: "col_index (columns ?F) (str ''RevenueGBP'') = Inr 2"
    by (simp add: reset_index_def col_index_def positions_def)
  have col2: "column 2 ?F = map snd s"
  proof (rule nth_equalityI)
    show "length (column 2 ?F) = length (map snd s)"
      by (simp add: reset_index_def)
    fix i assume "i < length (column 2 ?F)"
    then have i: "i < length s" by (simp add: reset_index_def)
    then have "length (fst (s ! i)) = 2" by (simp add: len2)
    then have "(fst (s ! i) @ [snd (s ! i)]) ! 2 = snd (s ! i)"
      by (metis nth_append_length)
    with i show "column 2 ?F ! i = map snd s ! i"
      by (simp add: column_def reset_index_def)
  qed
  let ?items = "map (\<lambda>g. value_key (snd g)) s"
  let ?idx = "nargsort tie False ?items"
  from f have f': "f = take_rows ?idx ?F"
    by (simp add: sort_values_def get_col_def colF col2 comp_def)
  have idx_set: "set ?idx = {0..<length s}"
    using mset_eq_setD [OF mset_nargsort [of tie False ?items]] by simp
  have idx_len: "length ?idx = length s"
    using arg_cong [OF mset_nargsort [of tie False ?items], of size] by simp
  have rows_f: "rows f = map (\<lambda>i. (i, fst (s ! i) @ [snd (s ! i)])) ?idx"
    using idx_set by (simp add: f' take_rows_def reset_index_def)
  have cols: "columns res = [str ''Year'', str ''Month'', str ''RevenueGBP'']"
    by (simp add: res head_def f' take_rows_def reset_index_def)
  have empty: "rows res = []" if "s = []"
    using that idx_len by (simp add: res head_def rows_f)
  have nonempty: "\<exists>i < length s. rows res = [(i, fst (s ! i) @ [snd (s ! i)])] \<and>
       (\<forall>g \<in> set s. value_key (snd g) = None \<or>
          (\<exists>a b. value_key (snd g) = Some a \<and> value_key (snd (s ! i)) = Some b \<and> a \<le> b))"
    if "s \<noteq> []"
  proof -
    from that idx_len have ne: "?idx \<noteq> []" by auto
    let ?i = "hd ?idx"
    from ne idx_set have i: "?i < length s"
      by (metis atLeastLessThan_iff hd_in_set)
    have r: "rows res = [(?i, fst (s ! ?i) @ [snd (s ! ?i)])]"
      using ne by (cases ?idx) (simp_all add: res head_def rows_f)
    obtain xs n where
      o: "map (\<lambda>i. ?items ! i) ?idx = map Some xs @ replicate n None" "sorted (rev xs)"
      by (rule nargsort_desc_keys)
    have hd: "hd (map (\<lambda>i. ?items ! i) ?idx) = value_key (snd (s ! ?i))"
      using ne i by (simp add: hd_map)
    have "value_key (snd g) = None \<or>
          (\<exists>a b. value_key (snd g) = Some a \<and> value_key (snd (s ! ?i)) = Some b \<and> a \<le> b)"
      if "g \<in> set s" for g
    proof -
      from that obtain j where j: "j < length s" "g = s ! j"
        by (auto simp: in_set_conv_nth)
      then have "j \<in> set ?idx" by (simp add: idx_set)
      then have "?items ! j \<in> set (map (\<lambda>i. ?items ! i) ?idx)" by simp
      from desc_head_max [OF o this] show ?thesis
        using j by (simp add: hd)
    qed
    with i r show ?thesis by blast
  qed
  have e: "s = [] \<longrightarrow> rows res = []"
    by (rule impI) (rule empty)
  have n: "s \<noteq> [] \<longrightarrow> (\<exists>i < length s. rows res = [(i, fst (s ! i) @ [snd (s ! i)])] \<and>
       (\<forall>g \<in> set s. value_key (snd g) = None \<or>
          (\<exists>a b. value_key (snd g) = Some a \<and> value_key (snd (s ! i)) = Some b \<and> a \<le> b)))"
    by (rule impI) (rule nonempty)
  note keys' = keys [unfolded kym] and vals' = vals [unfolded kym]
  show ?thesis
    by (rule that [OF y m v keys' vals' cols e n])
qed

subsection \<open>The aggregates on the concrete inputs\<close>

lemmas agg_eval =
  avg_margin_def region_revenue_def peak_month_def groupby_agg_def col_index_def positions_def
  column_def present_def group_keys_def group_values_def key_of_def agg_mean_def agg_sum_def
  sort_series_def nargsort_def argsort_def reset_index_def head_def
  sort_values_def get_col_def take_rows_def str_def stable_tie_def wrap64_def float_eval




lemma avg_margin_margins: "avg_margin stable_tie margins_table = Inr margins_avg"
  by (simp add: margins_table_def margins_avg_def agg_eval)

lemma peak_month_two_months: "peak_month stable_tie dt two_months = Inr two_months_peak"
  by (cases dt) (simp_all add: two_months_def two_months_peak_def agg_eval)

lemma peak_month_wrap: "peak_month stable_tie Int64 wrap_months = Inr wrap_months_peak"
  by (simp add: wrap_months_def wrap_months_peak_def agg_eval)

lemma avg_margin_huge: "avg_margin stable_tie huge_margins = Inr [([Str (str ''A'')], Num PInf)]"
  by (simp add: huge_margins_def avg_margin_def groupby_agg_def col_index_def positions_def
      column_def present_def group_keys_def group_values_def key_of_def agg_mean_def
      sort_series_def nargsort_def argsort_def str_def stable_tie_def
      add64_def sub64_def div64_def kahan_step_def fadd_def fdiv_def Let_def round64_huge)

subsection \<open>Assignments that change nothing\<close>

lemma labelled_set_col_same:
  assumes "wf_table t" "length vs = length (rows t)"
  shows "labelled n vs (set_col n vs t)"
  unfolding labelled_def
proof (intro conjI allI impI)
  show "n \<in> set (columns (set_col n vs t))"
    by (simp add: columns_set_col)
  fix k assume "k < length (columns (set_col n vs t))" "columns (set_col n vs t) ! k = n"
  with assms show "column k (set_col n vs t) = vs"
    by (rule column_set_col_label)
qed

lemma labelled_set_col_other:
  assumes "wf_table t" "length vs = length (rows t)" "m \<noteq> n" "labelled n xs t"
  shows "labelled n xs (set_col m vs t)"
  unfolding labelled_def
proof (intro conjI allI impI)
  from assms(4) show "n \<in> set (columns (set_col m vs t))"
    by (simp add: labelled_def columns_set_col)
  fix k assume k: "k < length (columns (set_col m vs t))" "columns (set_col m vs t) ! k = n"
  have kl: "k < length (columns t)"
  proof (rule ccontr)
    assume "\<not> k < length (columns t)"
    with k have "columns (set_col m vs t) ! k = m"
      by (auto simp: columns_set_col nth_append split: if_splits)
    with k(2) assms(3) show False by simp
  qed
  with k(2) have kn: "columns t ! k = n"
    by (auto simp: columns_set_col nth_append split: if_splits)
  with assms(3) have "columns t ! k \<noteq> m" by simp
  with assms(1,2) kl have "column k (set_col m vs t) = column k t"
    by (rule column_set_col_other)
  with assms(4) kl kn show "column k (set_col m vs t) = xs"
    by (simp add: labelled_def)
qed

lemma set_col_labelled_id:
  assumes "wf_table t" "length vs = length (rows t)" "labelled n vs t"
  shows "set_col n vs t = t"
proof -
  from assms(3) have n: "n \<in> set (columns t)"
    and cols: "\<And>k. k < length (columns t) \<Longrightarrow> columns t ! k = n \<Longrightarrow> column k t = vs"
    by (simp_all add: labelled_def)
  have cell: "set_cells (columns t) n (vs ! i) (snd (rows t ! i)) = snd (rows t ! i)"
    if i: "i < length (rows t)" for i
  proof (rule nth_equalityI)
    show "length (set_cells (columns t) n (vs ! i) (snd (rows t ! i))) = length (snd (rows t ! i))"
      using n by (simp add: length_set_cells)
    fix k assume "k < length (set_cells (columns t) n (vs ! i) (snd (rows t ! i)))"
    then have k: "k < length (snd (rows t ! i))"
      using n by (simp add: length_set_cells)
    have "length (snd (rows t ! i)) = length (columns t)"
      using assms(1) i by (simp add: wf_table_iff)
    with k have kl: "k < length (columns t)" by simp
    show "set_cells (columns t) n (vs ! i) (snd (rows t ! i)) ! k = snd (rows t ! i) ! k"
    proof (cases "columns t ! k = n")
      case True
      from cols [OF kl True] have "column k t ! i = vs ! i" by simp
      with i have "snd (rows t ! i) ! k = vs ! i" by (simp add: column_def)
      with k True n show ?thesis by (simp add: nth_set_cells)
    next
      case False
      with k show ?thesis by (simp add: nth_set_cells)
    qed
  qed
  have "rows (set_col n vs t) = rows t"
    by (rule nth_equalityI) (simp_all add: rows_set_col assms(2) cell)
  moreover have "columns (set_col n vs t) = columns t"
    using n by (simp add: columns_set_col)
  ultimately show ?thesis
    by (simp add: table.equality set_col_def)
qed

lemma take_rows_all: "take_rows [0..<length (rows t)] t = t"
  by (simp add: take_rows_def map_nth)

lemma to_datetime_stamps: "list_all is_stamp cs \<Longrightarrow> to_datetime parse cs = cs"
proof -
  assume a: "list_all is_stamp cs"
  have "coerce parse cs c = c" if "is_stamp c" for c
    using that by (cases c) (simp_all add: coerce_def)
  with a show ?thesis
    by (simp add: to_datetime_def list_all_iff map_idI)
qed


lemma clean_shape:
  assumes "wf_table t" "clean tie parse t = Inr t1"
  obtains d ys ms pj rj mg where
    "wf_table t1" "dated d t1"
    "map dt_year (column d t1) = map Inr ys" "labelled (str ''Year'') ys t1"
    "map dt_month_name (column d t1) = map Inr ms" "labelled (str ''Month'') ms t1"
    "col_index (columns t1) (str ''ProfitGBP'') = Inr pj"
    "col_index (columns t1) (str ''RevenueGBP'') = Inr rj"
    "map2 margin (column pj t1) (column rj t1) = map Inr mg"
    "labelled (str ''Profit_Margin_%'') mg t1"
    "length ys = length (rows t1)" "length ms = length (rows t1)" "length mg = length (rows t1)"
proof -
  from assms obtain d t3 ys ms pj rj mg where
    t3: "dated d t3" and
    ys: "map dt_year (column d t3) = map Inr ys" and ly: "length ys = length (rows t3)" and
    ms: "map dt_month_name (column d t3) = map Inr ms" and lm: "length ms = length (rows t3)" and
    pj: "col_index (columns (set_col (str ''Month'') ms (set_col (str ''Year'') ys t3))) (str ''ProfitGBP'') = Inr pj" and
    rj: "col_index (columns (set_col (str ''Month'') ms (set_col (str ''Year'') ys t3))) (str ''RevenueGBP'') = Inr rj" and
    mg: "map2 margin (column pj (set_col (str ''Month'') ms (set_col (str ''Year'') ys t3)))
        (column rj (set_col (str ''Month'') ms (set_col (str ''Year'') ys t3))) = map Inr mg" and
    lg: "length mg = length (rows t3)" and
    t1: "t1 = set_col (str ''Profit_Margin_%'') mg (set_col (str ''Month'') ms (set_col (str ''Year'') ys t3))"
    by (rule clean_props)
  let ?t4 = "set_col (str ''Year'') ys t3"
  let ?t5 = "set_col (str ''Month'') ms ?t4"
  from t3 have wf3: "wf_table t3" by (simp add: dated_def)
  have wf4: "wf_table ?t4" using wf3 ly by (rule wf_set_col)
  have l4: "length ms = length (rows ?t4)" by (simp add: length_rows_set_col ly lm)
  have wf5: "wf_table ?t5" using wf4 l4 by (rule wf_set_col)
  have l5: "length mg = length (rows ?t5)" by (simp add: length_rows_set_col ly lm lg)
  have wf1: "wf_table t1" unfolding t1 using wf5 l5 by (rule wf_set_col)
  have len1: "length (rows t1) = length (rows t3)"
    by (simp add: t1 length_rows_set_col ly lm lg)
  have d4: "dated d ?t4" "column d ?t4 = column d t3"
    using dated_set_col [OF t3 ly, of "str ''Year''"] by simp_all
  have d5: "dated d ?t5" "column d ?t5 = column d ?t4"
    using dated_set_col [OF d4(1) l4, of "str ''Month''"] by simp_all
  have d1: "dated d t1" "column d t1 = column d ?t5"
    unfolding t1 using dated_set_col [OF d5(1) l5, of "str ''Profit_Margin_%''"] by simp_all
  have cold: "column d t1 = column d t3"
    by (simp add: d1(2) d5(2) d4(2))
  have y4: "labelled (str ''Year'') ys ?t4"
    using wf3 ly by (rule labelled_set_col_same)
  have y5: "labelled (str ''Year'') ys ?t5"
    using wf4 l4 _ y4 by (rule labelled_set_col_other) simp
  have y1: "labelled (str ''Year'') ys t1"
    unfolding t1 using wf5 l5 _ y5 by (rule labelled_set_col_other) simp
  have m5: "labelled (str ''Month'') ms ?t5"
    using wf4 l4 by (rule labelled_set_col_same)
  have m1: "labelled (str ''Month'') ms t1"
    unfolding t1 using wf5 l5 _ m5 by (rule labelled_set_col_other) simp
  have g1: "labelled (str ''Profit_Margin_%'') mg t1"
    unfolding t1 using wf5 l5 by (rule labelled_set_col_same)
  have kp: "col_index (columns t1) (str ''ProfitGBP'') = Inr pj" "column pj t1 = column pj ?t5"
    unfolding t1 using set_col_keeps [OF wf5 l5 pj, of "str ''Profit_Margin_%''"] by simp_all
  have kr: "col_index (columns t1) (str ''RevenueGBP'') = Inr rj" "column rj t1 = column rj ?t5"
    unfolding t1 using set_col_keeps [OF wf5 l5 rj, of "str ''Profit_Margin_%''"] by simp_all
  show ?thesis
  proof (rule that [of d ys ms pj rj mg])
    show "wf_table t1" by (rule wf1)
    show "dated d t1" by (rule d1(1))
    show "map dt_year (column d t1) = map Inr ys" by (simp add: cold ys)
    show "labelled (str ''Year'') ys t1" by (rule y1)
    show "map dt_month_name (column d t1) = map Inr ms" by (simp add: cold ms)
    show "labelled (str ''Month'') ms t1" by (rule m1)
    show "col_index (columns t1) (str ''ProfitGBP'') = Inr pj" by (rule kp(1))
    show "col_index (columns t1) (str ''RevenueGBP'') = Inr rj" by (rule kr(1))
    show "map2 margin (column pj t1) (column rj t1) = map Inr mg" by (simp add: kp(2) kr(2) mg)
    show "labelled (str ''Profit_Margin_%'') mg t1" by (rule g1)
    show "length ys = length (rows t1)" by (simp add: len1 ly)
    show "length ms = length (rows t1)" by (simp add: len1 lm)
    show "length mg = length (rows t1)" by (simp add: len1 lg)
  qed
qed

lemma reclean_year_table: "clean stable_tie no_parse year_clean = Inr year_reclean"
  by (simp add: year_clean_def year_reclean_def clean_eval)

subsection \<open>When the cleaning pipeline returns\<close>

lemma dt_year_stamps: "list_all is_stamp cs \<Longrightarrow> \<exists>ys. map dt_year cs = map Inr ys"
proof (induction cs)
  case Nil
  then show ?case by simp
next
  case (Cons c cs)
  then obtain ys where ys: "map dt_year cs = map Inr ys" by auto
  from Cons.prems obtain x where "dt_year c = Inr x" by (cases c) auto
  with ys have "map dt_year (c # cs) = map Inr (x # ys)" by simp
  then show ?case by (rule exI)
qed

lemma dt_month_name_stamps: "list_all is_stamp cs \<Longrightarrow> \<exists>ms. map dt_month_name cs = map Inr ms"
proof (induction cs)
  case Nil
  then show ?case by simp
next
  case (Cons c cs)
  then obtain ms where ms: "map dt_month_name cs = map Inr ms" by auto
  from Cons.prems obtain x where "dt_month_name c = Inr x" by (cases c) auto
  with ms have "map dt_month_name (c # cs) = map Inr (x # ms)" by simp
  then show ?case by (rule exI)
qed

lemma margin_numbers: "is_number a \<Longrightarrow> is_number b \<Longrightarrow> \<exists>x. margin a b = Inr x"
  by (cases a; cases b) (simp_all add: margin_def)

lemma map2_margin_numbers:
  "list_all is_number xs \<Longrightarrow> list_all is_number ys \<Longrightarrow> \<exists>zs. map2 margin xs ys = map Inr zs"
proof (induction xs arbitrary: ys)
  case Nil
  then show ?case by simp
next
  case (Cons x xs)
  show ?case
  proof (cases ys)
    case Nil
    then show ?thesis by simp
  next
    case (Cons y ys')
    with Cons.prems Cons.IH [of ys'] obtain zs where zs: "map2 margin xs ys' = map Inr zs"
      by auto
    from Cons Cons.prems obtain z where "margin x y = Inr z"
      using margin_numbers [of x y] by auto
    with zs Cons have "map2 margin (x # xs) ys = map Inr (z # zs)" by simp
    then show ?thesis by (rule exI)
  qed
qed

lemma clean_succeeds:
  assumes wf: "wf_table t"
    and d: "col_index (map normalize_name (columns t)) (str ''Date'') = Inr d"
    and p: "col_index (map normalize_name (columns t)) (str ''ProfitGBP'') = Inr p"
    and r: "col_index (map normalize_name (columns t)) (str ''RevenueGBP'') = Inr r"
    and num: "\<forall>row \<in> set (rows t). is_number (snd row ! p) \<and> is_number (snd row ! r)"
  shows "\<exists>t'. clean tie parse t = Inr t'"
proof -
  let ?cols = "map normalize_name (columns t)"
  let ?t0 = "normalize_columns t"
  have wf0: "wf_table ?t0" using wf by (rule wf_normalize_columns)
  have c0: "columns ?t0 = ?cols" and r0: "rows ?t0 = rows t"
    by (simp_all add: normalize_columns_def)
  define t1 where "t1 = set_col (str ''Date'') (to_datetime parse (column d ?t0)) ?t0"
  have s1: "convert_date parse ?t0 = Inr t1"
    by (simp add: convert_date_def get_col_def c0 d t1_def)
  from convert_date_props [OF wf0 s1] obtain d' where
    d': "col_index (columns ?t0) (str ''Date'') = Inr d'" and
    c1: "columns t1 = columns ?t0" and wf1: "wf_table t1" and
    r1: "rows t1 = map (\<lambda>r. (fst r, set_cells (columns ?t0) (str ''Date'')
        (coerce parse (column d' ?t0) (snd r ! d')) (snd r))) (rows ?t0)"
    by blast
  from d' d have dd: "d' = d" by (simp add: c0)
  have d1: "col_index (columns t1) (str ''Date'') = Inr d"
    by (simp add: c1 c0 d)
  have dlt: "d < length ?cols" and dn: "?cols ! d = str ''Date''" and din: "str ''Date'' \<in> set ?cols"
    using col_index_InrD(1,2,3) [OF d] by simp_all
  have plt: "p < length ?cols" and pn: "?cols ! p = str ''ProfitGBP''"
    using col_index_InrD(1,2) [OF p] by simp_all
  have rlt: "r < length ?cols" and rn: "?cols ! r = str ''RevenueGBP''"
    using col_index_InrD(1,2) [OF r] by simp_all
  have cells1: "(snd row ! d = NA \<or> is_stamp (snd row ! d)) \<and>
      is_number (snd row ! p) \<and> is_number (snd row ! r)"
    if "row \<in> set (rows t1)" for row
  proof -
    from that obtain row0 where row0: "row0 \<in> set (rows t)" and
      row: "snd row = set_cells ?cols (str ''Date'') (coerce parse (column d ?t0) (snd row0 ! d)) (snd row0)"
      by (auto simp: r1 c0 r0 dd)
    from row0 wf have len: "length (snd row0) = length ?cols"
      by (simp add: wf_table_iff)
    have "snd row ! d = coerce parse (column d ?t0) (snd row0 ! d)"
      using dlt dn din len by (simp add: row nth_set_cells)
    moreover have "snd row ! p = snd row0 ! p"
      using plt pn len by (simp add: row nth_set_cells)
    moreover have "snd row ! r = snd row0 ! r"
      using rlt rn len by (simp add: row nth_set_cells)
    ultimately show ?thesis
      using coerce_cases [of parse "column d ?t0" "snd row0 ! d"] num row0 by simp
  qed
  define t2 where "t2 = (drop_duplicates t1)\<lparr>rows := filter (\<lambda>r. snd r ! d \<noteq> NA)
      (rows (drop_duplicates t1))\<rparr>"
  have "col_index (columns (drop_duplicates t1)) (str ''Date'') = Inr d"
    using d1 by (simp add: drop_duplicates_def)
  then have s2: "dropna (str ''Date'') (drop_duplicates t1) = Inr t2"
    by (simp add: dropna_unique t2_def)
  have st1: "\<forall>r \<in> set (rows t1). snd r ! d = NA \<or> is_stamp (snd r ! d)"
    using cells1 by blast
  note p2 = remove_rows_props [OF wf1 d1 st1 s2]
  have sub2: "set (rows t2) \<subseteq> set (rows t1)"
    using set_dedup [of "[]" "rows t1"] by (auto simp: p2(2))
  define t3 where "t3 = take_rows (nargsort tie True (map date_key (column d t2))) t2"
  have s3: "sort_values tie date_key True (str ''Date'') t2 = Inr t3"
    by (simp add: sort_values_def dated_get_col [OF p2(3)] t3_def)
  note p3 = sort_by_date_props [OF p2(3) s3]
  have set3: "set (rows t3) = set (rows t2)"
    using p3(3) by (rule mset_eq_setD)
  from p3(4) have wf3: "wf_table t3" and stamps3: "list_all is_stamp (column d t3)"
    by (simp_all add: dated_def)
  have c3: "columns t3 = ?cols"
    by (simp add: p3(1) p2(1) c1 c0)
  from dt_year_stamps [OF stamps3] obtain ys where ys: "map dt_year (column d t3) = map Inr ys"
    by blast
  from arg_cong [OF ys, of length] have ly: "length ys = length (rows t3)" by simp
  define t4 where "t4 = set_col (str ''Year'') ys t3"
  have s4: "derive_year t3 = Inr t4"
    by (simp add: derive_year_def dated_get_col [OF p3(4)] ys t4_def)
  have d4: "dated d t4" "column d t4 = column d t3"
    unfolding t4_def using dated_set_col [OF p3(4) ly, of "str ''Year''"] by simp_all
  have wf4: "wf_table t4" using d4(1) by (simp add: dated_def)
  from dt_month_name_stamps [OF stamps3] obtain ms where
    ms: "map dt_month_name (column d t4) = map Inr ms"
    unfolding d4(2) by blast
  from arg_cong [OF ms, of length] have lm: "length ms = length (rows t4)" by simp
  define t5 where "t5 = set_col (str ''Month'') ms t4"
  have s5: "derive_month t4 = Inr t5"
    by (simp add: derive_month_def dated_get_col [OF d4(1)] ms t5_def)
  have p3i: "col_index (columns t3) (str ''ProfitGBP'') = Inr p"
    and r3i: "col_index (columns t3) (str ''RevenueGBP'') = Inr r"
    by (simp_all add: c3 p r)
  have p4: "col_index (columns t4) (str ''ProfitGBP'') = Inr p" "column p t4 = column p t3"
    unfolding t4_def using set_col_keeps [OF wf3 ly p3i, of "str ''Year''"] by simp_all
  have r4: "col_index (columns t4) (str ''RevenueGBP'') = Inr r" "column r t4 = column r t3"
    unfolding t4_def using set_col_keeps [OF wf3 ly r3i, of "str ''Year''"] by simp_all
  have p5: "col_index (columns t5) (str ''ProfitGBP'') = Inr p" "column p t5 = column p t4"
    unfolding t5_def using set_col_keeps [OF wf4 lm p4(1), of "str ''Month''"] by simp_all
  have r5: "col_index (columns t5) (str ''RevenueGBP'') = Inr r" "column r t5 = column r t4"
    unfolding t5_def using set_col_keeps [OF wf4 lm r4(1), of "str ''Month''"] by simp_all
  have cells3: "is_number (snd row ! p) \<and> is_number (snd row ! r)" if "row \<in> set (rows t3)" for row
    using that set3 sub2 cells1 by blast
  have "list_all is_number (column p t3)" "list_all is_number (column r t3)"
    using cells3 by (simp_all add: column_def list_all_iff)
  then have "list_all is_number (column p t5)" "list_all is_number (column r t5)"
    by (simp_all only: p5(2) p4(2) r5(2) r4(2))
  from map2_margin_numbers [OF this] obtain mg where
    mg: "map2 margin (column p t5) (column r t5) = map Inr mg"
    by blast
  have s6: "derive_margin t5 = Inr (set_col (str ''Profit_Margin_%'') mg t5)"
    by (simp add: derive_margin_def get_col_def p5(1) r5(1) mg)
  have "clean tie parse t = Inr (set_col (str ''Profit_Margin_%'') mg t5)"
    by (simp add: clean_def s1 s2 s3 s4 s5 s6)
  then show ?thesis by (rule exI)
qed

subsection \<open>Sorting a sorted table again\<close>

lemma month_num_inj: "month_num a = month_num b \<Longrightarrow> a = b"
  by (cases a; cases b) simp_all

lemma ts_key_inj: "ts_key a = ts_key b \<Longrightarrow> a = b"
  by (cases a; cases b) (auto simp: ts_key_def dest: month_num_inj)

lemma clean_sorted:
  assumes "wf_table t" "clean tie parse t = Inr t1"
  obtains ds where "get_col (str ''Date'') t1 = Inr (map Stamp ds)" "sorted (map ts_key ds)"
proof -
  from assms obtain d t3 ys ms mg where
    t3: "dated d t3" "sorted (dkeys d t3)" and
    ly: "length ys = length (rows t3)" and lm: "length ms = length (rows t3)" and
    lg: "length mg = length (rows t3)" and
    t1: "t1 = set_col (str ''Profit_Margin_%'') mg (set_col (str ''Month'') ms (set_col (str ''Year'') ys t3))"
    by (rule clean_props)
  let ?t4 = "set_col (str ''Year'') ys t3"
  let ?t5 = "set_col (str ''Month'') ms ?t4"
  have d4: "dated d ?t4" "column d ?t4 = column d t3"
    using dated_set_col [OF t3(1) ly, of "str ''Year''"] by simp_all
  have l4: "length ms = length (rows ?t4)"
    by (simp add: length_rows_set_col ly lm)
  have d5: "dated d ?t5" "column d ?t5 = column d ?t4"
    using dated_set_col [OF d4(1) l4, of "str ''Month''"] by simp_all
  have l5: "length mg = length (rows ?t5)"
    by (simp add: length_rows_set_col ly lm lg)
  have d6: "dated d t1" "column d t1 = column d ?t5"
    unfolding t1 using dated_set_col [OF d5(1) l5, of "str ''Profit_Margin_%''"] by simp_all
  have col: "column d t1 = column d t3"
    by (simp add: d6(2) d5(2) d4(2))
  from d6(1) have "list_all is_stamp (column d t1)"
    by (simp add: dated_def)
  from stamps_of [OF this] obtain ds where
    ds: "column d t1 = map Stamp ds" "map (\<lambda>c. the (date_key c)) (column d t1) = map ts_key ds"
    by blast
  have "get_col (str ''Date'') t1 = Inr (map Stamp ds)"
    using dated_get_col [OF d6(1)] ds(1) by simp
  moreover have "sorted (map ts_key ds)"
    using t3(2) ds(2) by (simp add: dkeys_def col)
  ultimately show ?thesis by (rule that)
qed

lemma nargsort_stamps:
  "nargsort tie True (map date_key (map Stamp ds)) = argsort tie (map ts_key ds)"
proof -
  have "None \<notin> set (map date_key (map Stamp ds))" by auto
  from nargsort_asc_present [OF this] show ?thesis
    by (simp add: comp_def)
qed

lemma resort_keeps_stable:
  assumes "wf_table t" "clean tie parse t = Inr t1"
  shows "resort_keeps stable_tie t1"
proof -
  from assms obtain ds where ds: "get_col (str ''Date'') t1 = Inr (map Stamp ds)"
    "sorted (map ts_key ds)"
    by (rule clean_sorted)
  have "argsort stable_tie (map ts_key ds) = [0..<length ds]"
    using argsort_stable_sorted [OF ds(2)] by (simp add: stable_tie_def [abs_def])
  then have "nargsort stable_tie True (map date_key (map Stamp ds)) = [0..<length (map Stamp ds)]"
    by (simp only: nargsort_stamps length_map)
  then show ?thesis
    unfolding resort_keeps_def ds(1) by (simp only: sum.case)
qed

lemma resort_keeps_distinct:
  assumes "wf_table t" "clean tie' parse t = Inr t1"
    and "get_col (str ''Date'') t1 = Inr dates" "distinct dates"
  shows "resort_keeps tie t1"
proof -
  from assms(1,2) obtain ds where ds: "get_col (str ''Date'') t1 = Inr (map Stamp ds)"
    "sorted (map ts_key ds)"
    by (rule clean_sorted)
  with assms(3,4) have "distinct (map Stamp ds)" by simp
  then have "distinct ds" by (simp add: distinct_map)
  then have "distinct (map ts_key ds)"
    by (simp add: distinct_map inj_on_def) (blast dest: ts_key_inj)
  with ds(2) have "argsort tie (map ts_key ds) = [0..<length ds]"
    using argsort_distinct_sorted [of "map ts_key ds" tie] by simp
  then have "nargsort tie True (map date_key (map Stamp ds)) = [0..<length (map Stamp ds)]"
    by (simp only: nargsort_stamps length_map)
  then show ?thesis
    unfolding resort_keeps_def ds(1) by (simp only: sum.case)
qed

subsection \<open>Three rows\<close>

lemma dedup_filter_first:
  "filter (\<lambda>r. snd r = c) (dedup seen rs) =
     (if c \<in> set seen then [] else take 1 (filter (\<lambda>r. snd r = c) rs))"
  by (induction rs arbitrary: seen) auto

lemma find_filter_hd: "filter P xs = x # ys \<Longrightarrow> find P xs = Some x"
  by (induction xs) (auto split: if_splits)

lemma set_cells_other:
  "j < length cs \<Longrightarrow> cols ! j \<noteq> n \<Longrightarrow> set_cells cols n v cs ! j = cs ! j"
  by (simp add: nth_set_cells)

lemma length_set_cells_le: "length cs \<le> length (set_cells cols n v cs)"
  by (simp add: length_set_cells)

lemma nth_columns_set_col: "j < length (columns t) \<Longrightarrow> columns (set_col n vs t) ! j = columns t ! j"
  by (simp add: columns_set_col nth_append)

lemma rows_set_col_single:
  "rows t = [(l, cs)] \<Longrightarrow> length vs = 1 \<Longrightarrow>
   rows (set_col n vs t) = [(l, set_cells (columns t) n (vs ! 0) cs)]"
  by (simp add: rows_set_col)

lemma three_rows_survivor:
  assumes wf: "wf_table t" and cl: "clean tie parse t = Inr t'"
    and ms: "mset (map snd (rows t)) = {#a, a, b#}"
    and d: "col_index (map normalize_name (columns t)) (str ''Date'') = Inr d"
    and a: "coerce parse (column d t) (a ! d) = Stamp ts"
    and b: "coerce parse (column d t) (b ! d) = NA"
  shows "\<exists>l cs. rows t' = [(l, cs)] \<and>
          find (\<lambda>row. snd row = a) (rows t) = Some (l, a) \<and>
          cs ! d = Stamp ts \<and>
          (\<forall>j < length (columns t). j \<noteq> d \<and>
             normalize_name (columns t ! j) \<notin> {str ''Year'', str ''Month'', str ''Profit_Margin_%''} \<longrightarrow>
             cs ! j = a ! j)"
proof -
  let ?cols = "map normalize_name (columns t)"
  let ?F = "\<lambda>cs. set_cells ?cols (str ''Date'') (coerce parse (column d t) (cs ! d)) cs"
  let ?G = "\<lambda>r. (fst r, ?F (snd r))"
  from wf cl obtain d' and t1 :: table and t3 ys ms mg where
    d': "col_index ?cols (str ''Date'') = Inr d'" and
    r1: "rows t1 = map (\<lambda>r. (fst r, set_cells ?cols (str ''Date'')
        (coerce parse (column d' t) (snd r ! d')) (snd r))) (rows t)" and
    m3: "mset (rows t3) = mset (filter (\<lambda>r. snd r ! d' \<noteq> NA) (dedup [] (rows t1)))" and
    c3: "columns t3 = ?cols" and
    ly: "length ys = length (rows t3)" and lm: "length ms = length (rows t3)" and
    lg: "length mg = length (rows t3)" and
    t': "t' = set_col (str ''Profit_Margin_%'') mg (set_col (str ''Month'') ms (set_col (str ''Year'') ys t3))"
    by (rule clean_props)
  from d' d have dd: "d' = d" by simp
  have rows1: "rows t1 = map ?G (rows t)"
    by (simp add: r1 dd)
  have "set (map snd (rows t)) = set_mset {#a, a, b#}"
    using ms by (metis set_mset_mset)
  then have ab: "snd ` set (rows t) = {a, b}" by auto
  have dlt: "d < length ?cols" and dn: "?cols ! d = str ''Date''" and din: "str ''Date'' \<in> set ?cols"
    using col_index_InrD(1,2,3) [OF d] by simp_all
  have "a \<in> snd ` set (rows t)" "b \<in> snd ` set (rows t)"
    by (simp_all add: ab)
  then have la: "length a = length ?cols" and lb: "length b = length ?cols"
    using wf by (auto simp: wf_table_iff)
  have Fa: "?F a ! j = (if ?cols ! j = str ''Date'' then Stamp ts else a ! j)" if "j < length ?cols" for j
    using that la din by (simp add: nth_set_cells a)
  have Fad: "?F a ! d = Stamp ts"
    using Fa [OF dlt] dn by simp
  have Fbd: "?F b ! d = NA"
    using dlt dn din lb by (simp add: nth_set_cells b)
  have lFa: "length (?F a) = length ?cols"
    using din la by (simp add: length_set_cells)
  have ne: "?F a \<noteq> ?F b"
    using Fad Fbd by auto
  have key: "?F (snd r) = ?F a \<longleftrightarrow> snd r = a" if "r \<in> set (rows t)" for r
  proof -
    from that have "snd r \<in> snd ` set (rows t)" by (rule imageI)
    then have "snd r = a \<or> snd r = b" by (simp add: ab)
    with ne show ?thesis by auto
  qed
  have keep: "snd r ! d \<noteq> NA \<longleftrightarrow> snd r = ?F a" if "r \<in> set (dedup [] (rows t1))" for r
  proof -
    from that set_dedup [of "[]" "rows t1"] have "r \<in> set (rows t1)" by auto
    then obtain r0 where r0: "r0 \<in> set (rows t)" "r = ?G r0"
      by (auto simp: rows1)
    then have "snd r0 \<in> snd ` set (rows t)" by simp
    then have "snd r0 = a \<or> snd r0 = b" by (simp add: ab)
    then have "snd r = ?F a \<or> snd r = ?F b" by (auto simp: r0(2))
    then show ?thesis
      using Fad Fbd ne by auto
  qed
  have "filter (\<lambda>r. snd r ! d \<noteq> NA) (dedup [] (rows t1)) = filter (\<lambda>r. snd r = ?F a) (dedup [] (rows t1))"
    by (rule filter_cong [OF refl]) (rule keep)
  also have "\<dots> = take 1 (filter (\<lambda>r. snd r = ?F a) (rows t1))"
    by (simp add: dedup_filter_first)
  also have "filter (\<lambda>r. snd r = ?F a) (rows t1) = map ?G (filter (\<lambda>r. ?F (snd r) = ?F a) (rows t))"
    by (simp add: rows1 filter_map comp_def)
  also have "filter (\<lambda>r. ?F (snd r) = ?F a) (rows t) = filter (\<lambda>r. snd r = a) (rows t)"
    by (rule filter_cong [OF refl]) (rule key)
  finally have kept: "filter (\<lambda>r. snd r ! d \<noteq> NA) (dedup [] (rows t1))
      = map ?G (take 1 (filter (\<lambda>r. snd r = a) (rows t)))"
    by (simp add: take_map)
  have "a \<in> snd ` set (rows t)"
    by (simp add: ab)
  then have "\<exists>r \<in> set (rows t). snd r = a"
    by (auto simp: image_iff)
  then have "filter (\<lambda>r. snd r = a) (rows t) \<noteq> []"
    by (simp add: filter_empty_conv)
  then obtain x xs where x: "filter (\<lambda>r. snd r = a) (rows t) = x # xs"
    by (cases "filter (\<lambda>r. snd r = a) (rows t)") auto
  then have "x \<in> set (filter (\<lambda>r. snd r = a) (rows t))" by simp
  then have sx: "snd x = a" by simp
  from x have fx: "find (\<lambda>r. snd r = a) (rows t) = Some x"
    by (rule find_filter_hd)
  define l where "l = fst x"
  have xl: "x = (l, a)"
    using sx by (simp add: l_def prod_eq_iff)
  from kept x have "filter (\<lambda>r. snd r ! d \<noteq> NA) (dedup [] (rows t1)) = [(l, ?F a)]"
    by (simp add: xl)
  with m3 have "mset (rows t3) = {#(l, ?F a)#}"
    by (simp add: dd)
  then have rows3: "rows t3 = [(l, ?F a)]"
    by simp
  let ?t4 = "set_col (str ''Year'') ys t3"
  let ?t5 = "set_col (str ''Month'') ms ?t4"
  let ?c4 = "set_cells (columns t3) (str ''Year'') (ys ! 0) (?F a)"
  let ?c5 = "set_cells (columns ?t4) (str ''Month'') (ms ! 0) ?c4"
  let ?c6 = "set_cells (columns ?t5) (str ''Profit_Margin_%'') (mg ! 0) ?c5"
  from ly lm lg rows3 have l1: "length ys = 1" "length ms = 1" "length mg = 1"
    by simp_all
  have rows4: "rows ?t4 = [(l, ?c4)]"
    using rows3 l1(1) by (rule rows_set_col_single)
  have rows5: "rows ?t5 = [(l, ?c5)]"
    using rows4 l1(2) by (rule rows_set_col_single)
  have rows6: "rows t' = [(l, ?c6)]"
    unfolding t' using rows5 l1(3) by (rule rows_set_col_single)
  have cell: "?c6 ! j = ?F a ! j"
    if j: "j < length ?cols"
      and n: "?cols ! j \<notin> {str ''Year'', str ''Month'', str ''Profit_Margin_%''}" for j
  proof -
    have j3: "j < length (columns t3)" and n3: "columns t3 ! j = ?cols ! j"
      using j by (simp_all add: c3)
    have j4: "j < length (columns ?t4)" and n4: "columns ?t4 ! j = ?cols ! j"
      using j3 n3 by (simp_all add: columns_set_col nth_append)
    have j5: "j < length (columns ?t5)" and n5: "columns ?t5 ! j = ?cols ! j"
      using j4 n4 by (simp_all add: columns_set_col [of "str ''Month''"] nth_append)
    have g3: "j < length (?F a)"
      using j by (simp add: lFa)
    have g4: "j < length ?c4"
      using g3 length_set_cells_le [of "?F a" "columns t3" "str ''Year''" "ys ! 0"] by simp
    have g5: "j < length ?c5"
      using g4 length_set_cells_le [of ?c4 "columns ?t4" "str ''Month''" "ms ! 0"] by simp
    have "?c6 ! j = ?c5 ! j"
      using g5 n n5 by (intro set_cells_other) auto
    also have "\<dots> = ?c4 ! j"
      using g4 n n4 by (intro set_cells_other) auto
    also have "\<dots> = ?F a ! j"
      using g3 n n3 by (intro set_cells_other) auto
    finally show ?thesis .
  qed
  have dcell: "?c6 ! d = Stamp ts"
    using cell [OF dlt] dn Fad by (simp add: str_def)
  have others: "?c6 ! j = a ! j"
    if "j < length (columns t)" "j \<noteq> d"
      "normalize_name (columns t ! j) \<notin> {str ''Year'', str ''Month'', str ''Profit_Margin_%''}" for j
  proof -
    from that(1) have j: "j < length ?cols" by simp
    have nd: "?cols ! j \<noteq> str ''Date''"
      using col_index_InrD(4) [OF d j] that(2) by blast
    from that(1,3) have "?cols ! j \<notin> {str ''Year'', str ''Month'', str ''Profit_Margin_%''}"
      by simp
    from cell [OF j this] Fa [OF j] nd show ?thesis by simp
  qed
  have "rows t' = [(l, ?c6)] \<and> find (\<lambda>row. snd row = a) (rows t) = Some (l, a) \<and>
        ?c6 ! d = Stamp ts \<and>
        (\<forall>j < length (columns t). j \<noteq> d \<and>
             normalize_name (columns t ! j) \<notin> {str ''Year'', str ''Month'', str ''Profit_Margin_%''} \<longrightarrow>
             ?c6 ! j = a ! j)"
    using rows6 fx dcell others by (simp add: xl)
  then show ?thesis
    by (intro exI)
qed

subsection \<open>The script on the store\<close>

lemma frame_at_Inr_iff: "frame_at h a = Inr t \<longleftrightarrow> a < length h \<and> h ! a = Frame t"
  by (auto simp: frame_at_def split: obj.splits)

lemma series_at_Inr_iff: "series_at h a = Inr s \<longleftrightarrow> a < length h \<and> h ! a = Series s"
  by (auto simp: series_at_def split: obj.splits)

lemma frame_at_append: "frame_at h a = Inr t \<Longrightarrow> frame_at (h @ xs) a = Inr t"
  by (simp add: frame_at_Inr_iff nth_append)

lemma frame_at_new [simp]: "frame_at (h @ [Frame t]) (length h) = Inr t"
  by (simp add: frame_at_Inr_iff)

lemma series_at_new [simp]: "series_at (h @ [Series s]) (length h) = Inr s"
  by (simp add: series_at_Inr_iff)

lemma obj_groupby_agg_eq:
  "frame_at h a = Inr t \<Longrightarrow>
   obj_groupby_agg by name agg a h =
     ebind (groupby_agg by name agg t) (\<lambda>s. Inr (h @ [Series s], length h))"
  by (simp add: obj_groupby_agg_def alloc_def)

lemma obj_sort_series_new:
  "obj_sort_series tie False (length h) (h @ [Series s]) =
     Inr (h @ [Series s, Series (sort_series tie s)], Some (Suc (length h)))"
  by (simp add: obj_sort_series_def)

lemma obj_reset_index_new:
  "obj_reset_index by name (length h) (h @ [Series s]) =
     Inr (h @ [Series s, Frame (reset_index by name s)], Suc (length h))"
  by (simp add: obj_reset_index_def alloc_def)

lemma obj_sort_values_new:
  "obj_sort_values tie key asc name False (length h) (h @ [Frame f]) =
     ebind (sort_values tie key asc name f) (\<lambda>g. Inr (h @ [Frame f, Frame g], Some (Suc (length h))))"
  by (simp add: obj_sort_values_def)

lemma obj_head_new:
  "obj_head n (Some (length h)) (h @ [Frame f]) = Inr (h @ [Frame f, Frame (head n f)], Suc (length h))"
  by (simp add: obj_head_def alloc_def)

text \<open>What each statement of section 5 does to the store and the variables.\<close>

lemma assign_avg_margin_eq:
  assumes "frame_at h (df w) = Inr t"
  shows "assign_avg_margin tie (h, w) =
     ebind (groupby_agg [str ''Confectionary''] (str ''Profit_Margin_%'') agg_mean t) (\<lambda>s.
       Inr (h @ [Series s, Series (sort_series tie s)],
            w\<lparr>avg_margin_var := Some (Suc (length h))\<rparr>))"
proof (cases "groupby_agg [str ''Confectionary''] (str ''Profit_Margin_%'') agg_mean t")
  case (Inl e)
  then show ?thesis
    by (simp add: assign_avg_margin_def obj_groupby_agg_eq [OF assms])
next
  case (Inr s)
  then show ?thesis
    by (simp add: assign_avg_margin_def obj_groupby_agg_eq [OF assms] obj_sort_series_new)
qed

lemma assign_region_revenue_eq:
  assumes "frame_at h (df w) = Inr t"
  shows "assign_region_revenue tie dt (h, w) =
     ebind (groupby_agg [str ''CountryUK''] (str ''RevenueGBP'') (agg_sum dt) t) (\<lambda>s.
       Inr (h @ [Series s, Series (sort_series tie s)],
            w\<lparr>region_revenue_var := Some (Suc (length h))\<rparr>))"
proof (cases "groupby_agg [str ''CountryUK''] (str ''RevenueGBP'') (agg_sum dt) t")
  case (Inl e)
  then show ?thesis
    by (simp add: assign_region_revenue_def obj_groupby_agg_eq [OF assms])
next
  case (Inr s)
  then show ?thesis
    by (simp add: assign_region_revenue_def obj_groupby_agg_eq [OF assms] obj_sort_series_new)
qed

lemma assign_peak_month_eq:
  assumes "frame_at h (df w) = Inr t"
  shows "assign_peak_month tie dt (h, w) =
     ebind (groupby_agg [str ''Year'', str ''Month''] (str ''RevenueGBP'') (agg_sum dt) t) (\<lambda>s.
     ebind (sort_values tie value_key False (str ''RevenueGBP'')
              (reset_index [str ''Year'', str ''Month''] (str ''RevenueGBP'') s)) (\<lambda>f.
       Inr (h @ [Series s, Frame (reset_index [str ''Year'', str ''Month''] (str ''RevenueGBP'') s),
                 Frame f, Frame (head 1 f)],
            w\<lparr>peak_month_var := Some (length h + 3)\<rparr>)))"
proof (cases "groupby_agg [str ''Year'', str ''Month''] (str ''RevenueGBP'') (agg_sum dt) t")
  case (Inl e)
  then show ?thesis
    by (simp add: assign_peak_month_def obj_groupby_agg_eq [OF assms])
next
  case (Inr s)
  let ?F = "reset_index [str ''Year'', str ''Month''] (str ''RevenueGBP'') s"
  have 1: "obj_sort_values tie value_key False (str ''RevenueGBP'') False (Suc (length h))
        (h @ [Series s, Frame ?F]) =
      ebind (sort_values tie value_key False (str ''RevenueGBP'') ?F) (\<lambda>g.
        Inr (h @ [Series s, Frame ?F, Frame g], Some (Suc (Suc (length h)))))"
    using obj_sort_values_new [of tie value_key False "str ''RevenueGBP''" "h @ [Series s]" ?F]
    by simp
  have 2: "obj_head n (Some (Suc (Suc (length h)))) (h @ [Series s, Frame ?F, Frame g]) =
      Inr (h @ [Series s, Frame ?F, Frame g, Frame (head n g)], length h + 3)" for g n
    using obj_head_new [of n "h @ [Series s, Frame ?F]" g] by simp
  show ?thesis
  proof (cases "sort_values tie value_key False (str ''RevenueGBP'') ?F")
    case (Inl e)
    with Inr show ?thesis
      by (simp add: assign_peak_month_def obj_groupby_agg_eq [OF assms] obj_reset_index_new 1)
  next
    case (Inr g)
    with \<open>groupby_agg [str ''Year'', str ''Month''] (str ''RevenueGBP'') (agg_sum dt) t = Inr s\<close>
    show ?thesis
      by (simp add: assign_peak_month_def obj_groupby_agg_eq [OF assms] obj_reset_index_new 1 2)
  qed
qed

lemma analyse_eq:
  assumes "frame_at h (df w) = Inr t"
  shows "analyse tie dt (h, w) =
     ebind (groupby_agg [str ''Confectionary''] (str ''Profit_Margin_%'') agg_mean t) (\<lambda>s1.
     ebind (groupby_agg [str ''CountryUK''] (str ''RevenueGBP'') (agg_sum dt) t) (\<lambda>s2.
     ebind (groupby_agg [str ''Year'', str ''Month''] (str ''RevenueGBP'') (agg_sum dt) t) (\<lambda>s3.
     ebind (sort_values tie value_key False (str ''RevenueGBP'')
              (reset_index [str ''Year'', str ''Month''] (str ''RevenueGBP'') s3)) (\<lambda>f.
       Inr (h @ [Series s1, Series (sort_series tie s1), Series s2, Series (sort_series tie s2),
                 Series s3, Frame (reset_index [str ''Year'', str ''Month''] (str ''RevenueGBP'') s3),
                 Frame f, Frame (head 1 f)],
            w\<lparr>avg_margin_var := Some (length h + 1), region_revenue_var := Some (length h + 3),
              peak_month_var := Some (length h + 7)\<rparr>)))))"
proof (cases "groupby_agg [str ''Confectionary''] (str ''Profit_Margin_%'') agg_mean t")
  case (Inl e)
  then show ?thesis
    by (simp add: analyse_def assign_avg_margin_eq [OF assms])
next
  case s1: (Inr s1)
  let ?h1 = "h @ [Series s1, Series (sort_series tie s1)]"
  let ?w1 = "w\<lparr>avg_margin_var := Some (Suc (length h))\<rparr>"
  have f1: "frame_at ?h1 (df ?w1) = Inr t"
    using frame_at_append [OF assms] by simp
  have a1: "analyse tie dt (h, w) =
      ebind (assign_region_revenue tie dt (?h1, ?w1)) (assign_peak_month tie dt)"
    by (simp add: analyse_def assign_avg_margin_eq [OF assms] s1)
  show ?thesis
  proof (cases "groupby_agg [str ''CountryUK''] (str ''RevenueGBP'') (agg_sum dt) t")
    case (Inl e)
    then show ?thesis
      by (simp add: a1 s1 assign_region_revenue_eq [OF f1])
  next
    case s2: (Inr s2)
    let ?h2 = "?h1 @ [Series s2, Series (sort_series tie s2)]"
    let ?w2 = "?w1\<lparr>region_revenue_var := Some (Suc (length ?h1))\<rparr>"
    have f2: "frame_at ?h2 (df ?w2) = Inr t"
      using frame_at_append [OF f1] by simp
    have a2: "analyse tie dt (h, w) = assign_peak_month tie dt (?h2, ?w2)"
      by (simp add: a1 assign_region_revenue_eq [OF f1] s2)
    show ?thesis
      unfolding a2 assign_peak_month_eq [OF f2] by (simp add: s1 s2 eval_nat_numeral)
  qed
qed

lemma analyse_Inl: "frame_at h (df w) = Inl e \<Longrightarrow> analyse tie dt (h, w) = Inl e"
  by (simp add: analyse_def assign_avg_margin_def obj_groupby_agg_def)

lemma analyse_frame:
  assumes "analyse tie dt (h, w) = Inr (h', w')"
  shows "df w' = df w" and "\<exists>xs. h' = h @ xs" and "\<exists>t. frame_at h (df w) = Inr t"
proof -
  from assms obtain t where t: "frame_at h (df w) = Inr t"
    by (cases "frame_at h (df w)") (simp_all add: analyse_Inl)
  then show "\<exists>t. frame_at h (df w) = Inr t" ..
  from assms show "df w' = df w" and "\<exists>xs. h' = h @ xs"
    unfolding analyse_eq [OF t] ebind_Inr_iff by auto
qed



lemma analyse_sales:
  "analyse stable_tie Int64 ([Frame sales_clean], unset_vars 0) =
     Inr (Frame sales_clean # sales_objects, sales_vars)"
proof -
  have f: "frame_at [Frame sales_clean] (df (unset_vars 0)) = Inr sales_clean"
    by (simp add: frame_at_def unset_vars_def)
  have 1: "groupby_agg [str ''Confectionary''] (str ''Profit_Margin_%'') agg_mean sales_clean
      = Inr sales_avg_margin"
    by (simp add: sales_clean_def sales_avg_margin_def agg_eval)
  have 2: "groupby_agg [str ''CountryUK''] (str ''RevenueGBP'') (agg_sum Int64) sales_clean
      = Inr sales_region_revenue"
    by (simp add: sales_clean_def sales_region_revenue_def agg_eval)
  have 3: "groupby_agg [str ''Year'', str ''Month''] (str ''RevenueGBP'') (agg_sum Int64) sales_clean
      = Inr [([Num (Fin 2021), Str (str ''February'')], Num (Fin 700)),
             ([Num (Fin 2021), Str (str ''January'')], Num (Fin 500))]"
    by (simp add: sales_clean_def agg_eval)
  have 4: "reset_index [str ''Year'', str ''Month''] (str ''RevenueGBP'')
       [([Num (Fin 2021), Str (str ''February'')], Num (Fin 700)),
        ([Num (Fin 2021), Str (str ''January'')], Num (Fin 500))] = sales_months"
    by (simp add: reset_index_def sales_months_def)
  have 5: "sort_values stable_tie value_key False (str ''RevenueGBP'') sales_months = Inr sales_months"
    by (simp add: sales_months_def agg_eval)
  have 6: "head 1 sales_months = sales_peak_month"
    by (simp add: head_def sales_months_def sales_peak_month_def)
  have 7: "sort_series stable_tie sales_avg_margin = sales_avg_margin"
    "sort_series stable_tie sales_region_revenue = sales_region_revenue"
    by (simp_all add: sales_avg_margin_def sales_region_revenue_def agg_eval)
  show ?thesis
    unfolding analyse_eq [OF f] 1 2 3 ebind_Inr 4 5 6 7
    by (simp add: sales_objects_def sales_vars_def unset_vars_def)
qed

text \<open>
  With \<open>inplace=True\<close> a call changes the object it is called on: sorting the cleaned
  sales table itself by revenue in this way would leave another frame at the address of
  \<open>df\<close>.
\<close>

lemma obj_sort_values_inplace:
  "frame_at h a = Inr t \<Longrightarrow> sort_values tie key asc name t = Inr f \<Longrightarrow>
   obj_sort_values tie key asc name True a h = Inr (h[a := Frame f], None)"
  by (simp add: obj_sort_values_def)

lemma inplace_changes_df:
  "\<exists>h'. obj_sort_values stable_tie value_key False (str ''RevenueGBP'') True 0 [Frame sales_clean]
          = Inr (h', None) \<and>
        frame_at h' 0 \<noteq> Inr sales_clean"
proof -
  obtain f where f: "sort_values stable_tie value_key False (str ''RevenueGBP'') sales_clean = Inr f"
    and r: "fst (hd (rows f)) = 4"
    by (simp add: sales_clean_def agg_eval)
  have "frame_at [Frame sales_clean] 0 = Inr sales_clean"
    by (simp add: frame_at_def)
  from obj_sort_values_inplace [OF this f]
  have "obj_sort_values stable_tie value_key False (str ''RevenueGBP'') True 0 [Frame sales_clean]
      = Inr ([Frame f], None)"
    by simp
  moreover have "fst (hd (rows sales_clean)) = 1"
    by (simp add: sales_clean_def)
  with r have "frame_at [Frame f] 0 \<noteq> Inr sales_clean"
    by (auto simp: frame_at_def)
  ultimately show ?thesis by blast
qed

section \<open>The claims\<close>

text \<open>
  C1, as the claim states it: a row with revenue 0 would have a missing margin. The
  row with profit 5 and revenue 0 gets the margin \<open>+inf\<close>.
\<close>

theorem zero_revenue_margin_infinite:
  "clean stable_tie no_parse zero_revenue_table = Inr zero_revenue_clean \<and>
   get_col (str ''RevenueGBP'') zero_revenue_clean = Inr [Num (Fin 0)] \<and>
   get_col (str ''Profit_Margin_%'') zero_revenue_clean = Inr [Num PInf]"
  by (simp add: clean_zero_revenue) (simp add: zero_revenue_clean_def lookup_eval)

text \<open>
  C1, amended: in a row of the cleaned table whose revenue is 0, the margin is missing
  exactly when the profit is 0 or missing; with a positive profit it is \<open>+inf\<close>, with a
  negative profit \<open>-inf\<close> (the zero being the positive zero).
\<close>

theorem zero_revenue_margin:
  assumes "wf_table t" "clean tie parse t = Inr t'"
    and "get_col (str ''ProfitGBP'') t' = Inr p"
    and "get_col (str ''RevenueGBP'') t' = Inr r"
    and "get_col (str ''Profit_Margin_%'') t' = Inr m"
    and "i < length m" "r ! i = Num (Fin 0)"
  shows "(m ! i = NA \<longleftrightarrow> p ! i = NA \<or> p ! i = Num (Fin 0)) \<and>
         (\<forall>a. p ! i = Num (Fin a) \<and> 0 < a \<longrightarrow> m ! i = Num PInf) \<and>
         (\<forall>a. p ! i = Num (Fin a) \<and> a < 0 \<longrightarrow> m ! i = Num NInf)"
proof -
  from assms(1,2) obtain d t3 ys ms pj rj mg where
    t3: "dated d t3" and
    ly: "length ys = length (rows t3)" and lm: "length ms = length (rows t3)" and
    pj: "col_index (columns (set_col (str ''Month'') ms (set_col (str ''Year'') ys t3))) (str ''ProfitGBP'') = Inr pj" and
    rj: "col_index (columns (set_col (str ''Month'') ms (set_col (str ''Year'') ys t3))) (str ''RevenueGBP'') = Inr rj" and
    mg: "map2 margin (column pj (set_col (str ''Month'') ms (set_col (str ''Year'') ys t3)))
        (column rj (set_col (str ''Month'') ms (set_col (str ''Year'') ys t3))) = map Inr mg" and
    lg: "length mg = length (rows t3)" and
    t': "t' = set_col (str ''Profit_Margin_%'') mg (set_col (str ''Month'') ms (set_col (str ''Year'') ys t3))"
    by (rule clean_props)
  let ?t5 = "set_col (str ''Month'') ms (set_col (str ''Year'') ys t3)"
  from t3 have wf3: "wf_table t3" by (simp add: dated_def)
  note w5 = wf_derived [OF wf3 ly lm, of "str ''Month''" "str ''Year''"]
  have l5: "length mg = length (rows ?t5)"
    by (simp add: w5(2) lg)
  have kp: "col_index (columns t') (str ''ProfitGBP'') = Inr pj" "column pj t' = column pj ?t5"
    unfolding t' using set_col_keeps [OF w5(1) l5 pj, of "str ''Profit_Margin_%''"] by simp_all
  have kr: "col_index (columns t') (str ''RevenueGBP'') = Inr rj" "column rj t' = column rj ?t5"
    unfolding t' using set_col_keeps [OF w5(1) l5 rj, of "str ''Profit_Margin_%''"] by simp_all
  from assms(3) kp have p: "p = column pj ?t5"
    by (simp add: get_col_Inr_iff)
  from assms(4) kr have r: "r = column rj ?t5"
    by (simp add: get_col_Inr_iff)
  from assms(5) obtain k where k: "col_index (columns t') (str ''Profit_Margin_%'') = Inr k"
    and mk: "m = column k t'"
    by (auto simp: get_col_Inr_iff)
  have "column k t' = mg"
    unfolding t' using w5(1) l5 col_index_InrD(1,2) [OF k]
    by (intro column_set_col_label) (simp_all add: t')
  with mk have m: "m = mg" by simp
  from mg have "map2 margin p r = map Inr m"
    by (simp add: p r m)
  from map2_Inr_nth [OF this assms(6)] assms(7)
  have "margin (p ! i) (Num (Fin 0)) = Inr (m ! i)" by simp
  then show ?thesis by (rule margin_zero_revenue)
qed


theorem zero_revenue_margin_witness:
  "wf_table zero_revenue_table \<and>
   clean stable_tie no_parse zero_revenue_table = Inr zero_revenue_clean \<and>
   get_col (str ''ProfitGBP'') zero_revenue_clean = Inr [Num (Fin 5)] \<and>
   get_col (str ''RevenueGBP'') zero_revenue_clean = Inr [Num (Fin 0)] \<and>
   get_col (str ''Profit_Margin_%'') zero_revenue_clean = Inr [Num PInf] \<and>
   (0::nat) < length [Num PInf] \<and> [Num (Fin 0)] ! 0 = Num (Fin 0) \<and>
   ([Num PInf] ! 0 = NA \<longleftrightarrow> [Num (Fin 5)] ! 0 = NA \<or> [Num (Fin 5)] ! 0 = Num (Fin 0))"
proof -
  have h1: "wf_table zero_revenue_table"
    by (simp add: wf_table_def zero_revenue_table_def)
  have h3: "get_col (str ''ProfitGBP'') zero_revenue_clean = Inr [Num (Fin 5)]"
    and h4: "get_col (str ''RevenueGBP'') zero_revenue_clean = Inr [Num (Fin 0)]"
    and h5: "get_col (str ''Profit_Margin_%'') zero_revenue_clean = Inr [Num PInf]"
    by (simp_all add: zero_revenue_clean_def lookup_eval)
  have h6: "(0::nat) < length [Num PInf]" and h7: "[Num (Fin 0)] ! 0 = Num (Fin 0)"
    by simp_all
  from zero_revenue_margin [OF h1 clean_zero_revenue h3 h4 h5 h6 h7]
  show ?thesis
    using h1 clean_zero_revenue h3 h4 h5 by simp
qed

text \<open>
  C2, as the claim states it: the value of a type would be the mean of its margins. The
  type with the two margins \<open>2^1023\<close> has the mean \<open>2^1023\<close>, a float64 value, and gets
  the value \<open>+inf\<close>: the float64 sum of the two margins overflows.
\<close>

theorem avg_margin_overflow:
  "avg_margin stable_tie huge_margins = Inr [([Str (str ''A'')], Num PInf)] \<and>
   group_values [0] 1 (rows huge_margins) [Str (str ''A'')] = [Num (Fin huge), Num (Fin huge)] \<and>
   round64 huge = Fin huge \<and>
   exact_mean [Fin huge, Fin huge] = huge"
  by (simp add: avg_margin_huge round64_huge)
     (simp add: huge_margins_def group_values_def key_of_def exact_mean_def)

text \<open>
  C2, amended: the average-margin aggregate has one entry for each confectionary type
  that occurs (missing types apart); the value of a type is the float64 mean of its
  margins that are not missing, that is their compensated float64 sum divided by their
  number, and missing when there is none; it is the mean of these margins rounded to
  float64 whenever no addition of the sum rounds, so that the margins 10, missing and 30
  give exactly 20; the entries are in descending order of the value, the missing values
  last.
\<close>

theorem avg_margin_mean:
  assumes "avg_margin tie t = Inr res"
  shows "\<exists>c m. col_index (columns t) (str ''Confectionary'') = Inr c \<and>
           col_index (columns t) (str ''Profit_Margin_%'') = Inr m \<and>
           distinct (map fst res) \<and>
           set (map fst res) = groups [c] t \<and>
           (\<forall>g \<in> set res. snd g = float_mean (numbers (group_values [c] m (rows t) (fst g)))) \<and>
           (\<forall>g \<in> set res. numbers (group_values [c] m (rows t) (fst g)) \<noteq> [] \<and>
              exact_sums 0 (numbers (group_values [c] m (rows t) (fst g))) \<longrightarrow>
              snd g = Num (round64 (exact_mean (numbers (group_values [c] m (rows t) (fst g)))))) \<and>
           (\<forall>g \<in> set res. group_values [c] m (rows t) (fst g) = [Num (Fin 10), NA, Num (Fin 30)] \<longrightarrow>
              snd g = Num (Fin 20)) \<and>
           sorted_wrt not_below (map snd res)"
proof -
  from assms obtain s where
    s: "groupby_agg [str ''Confectionary''] (str ''Profit_Margin_%'') agg_mean t = Inr s"
    and res: "res = sort_series tie s"
    by (auto simp: avg_margin_def ebind_Inr_iff)
  from s obtain ks m where
    ks: "map (col_index (columns t)) [str ''Confectionary''] = map Inr ks" and
    m: "col_index (columns t) (str ''Profit_Margin_%'') = Inr m" and
    keys: "map fst s = group_keys ks (rows t)" and
    vals: "\<forall>g \<in> set s. agg_mean (group_values ks m (rows t) (fst g)) = Inr (snd g)"
    by (rule groupby_agg_props)
  from ks obtain c where c: "col_index (columns t) (str ''Confectionary'') = Inr c" and kc: "ks = [c]"
    by (cases ks) auto
  define V where "V = (\<lambda>g :: cell list \<times> cell. numbers (group_values [c] m (rows t) (fst g)))"
  have ms: "mset res = mset s"
    by (simp add: res mset_sort_series)
  then have set: "set res = set s"
    by (rule mset_eq_setD)
  have "mset (map fst res) = mset (map fst s)"
    by (simp add: ms)
  from mset_eq_imp_distinct_iff [OF this] mset_eq_setD [OF this]
  have d: "distinct (map fst res)" and k: "set (map fst res) = groups [c] t"
    by (simp_all add: keys kc distinct_group_keys set_group_keys)
  have agg: "agg_mean (group_values [c] m (rows t) (fst g)) = Inr (snd g)" if "g \<in> set res" for g
    using that vals by (simp add: set kc)
  have mean: "snd g = float_mean (V g)" if "g \<in> set res" for g
    unfolding V_def using agg [OF that] by (rule agg_mean_float_mean)
  have exact: "snd g = Num (round64 (exact_mean (V g)))"
    if "g \<in> set res" "V g \<noteq> []" "exact_sums 0 (V g)" for g
    using mean [OF that(1)] that(2,3) by (simp add: float_mean_exact)
  have ex: "snd g = Num (Fin 20)"
    if "g \<in> set res" "group_values [c] m (rows t) (fst g) = [Num (Fin 10), NA, Num (Fin 30)]" for g
  proof -
    from that(2) have Vg: "V g = [Fin 10, Fin 30]"
      by (simp add: V_def)
    have "V g \<noteq> []"
      by (simp add: Vg)
    moreover have "exact_sums 0 (V g)"
      by (simp only: Vg example_mean)
    ultimately have "V g \<noteq> []" "exact_sums 0 (V g)" .
    from exact [OF that(1) this] show ?thesis
      by (simp only: Vg example_mean)
  qed
  obtain xs n where
    o: "map (\<lambda>g. value_key (snd g)) res = map Some xs @ replicate n None" "sorted (rev xs)"
    unfolding res by (rule sort_series_desc)
  have "list_all is_number (map snd res)"
    using agg by (auto simp: list_all_iff intro: agg_mean_number)
  moreover from o(1) have "map value_key (map snd res) = map Some xs @ replicate n None"
    by (simp add: comp_def)
  ultimately have sorted: "sorted_wrt not_below (map snd res)"
    using o(2) by (intro desc_sorted_wrt)
  have "col_index (columns t) (str ''Confectionary'') = Inr c \<and>
           col_index (columns t) (str ''Profit_Margin_%'') = Inr m \<and>
           distinct (map fst res) \<and>
           set (map fst res) = groups [c] t \<and>
           (\<forall>g \<in> set res. snd g = float_mean (V g)) \<and>
           (\<forall>g \<in> set res. V g \<noteq> [] \<and> exact_sums 0 (V g) \<longrightarrow> snd g = Num (round64 (exact_mean (V g)))) \<and>
           (\<forall>g \<in> set res. group_values [c] m (rows t) (fst g) = [Num (Fin 10), NA, Num (Fin 30)] \<longrightarrow>
              snd g = Num (Fin 20)) \<and>
           sorted_wrt not_below (map snd res)"
    using c m d k mean exact ex sorted by simp
  then show ?thesis
    unfolding V_def by (intro exI)
qed

theorem avg_margin_mean_witness:
  "avg_margin stable_tie margins_table = Inr margins_avg \<and>
   group_values [0] 1 (rows margins_table) [Str (str ''B'')] = [Num (Fin 10), NA, Num (Fin 30)] \<and>
   numbers [Num (Fin 10), NA, Num (Fin 30)] \<noteq> [] \<and>
   exact_sums 0 (numbers [Num (Fin 10), NA, Num (Fin 30)]) \<and>
   snd (margins_avg ! 0) = Num (round64 (exact_mean (numbers [Num (Fin 10), NA, Num (Fin 30)]))) \<and>
   snd (margins_avg ! 0) = Num (Fin 20) \<and>
   sorted_wrt not_below (map snd margins_avg)"
proof -
  let ?g = "margins_avg ! 0"
  have gv: "group_values [0] 1 (rows margins_table) [Str (str ''B'')] = [Num (Fin 10), NA, Num (Fin 30)]"
    by (simp add: margins_table_def group_values_def key_of_def)
  have nb: "numbers [Num (Fin 10), NA, Num (Fin 30)] = [Fin 10, Fin 30]"
    by simp
  have ne: "numbers [Num (Fin 10), NA, Num (Fin 30)] \<noteq> []"
    by simp
  have ex: "exact_sums 0 (numbers [Num (Fin 10), NA, Num (Fin 30)])"
    by (simp only: nb example_mean)
  have c0: "col_index (columns margins_table) (str ''Confectionary'') = Inr 0"
    and m1: "col_index (columns margins_table) (str ''Profit_Margin_%'') = Inr 1"
    by (simp_all add: margins_table_def col_index_def positions_def str_def)
  have g: "?g \<in> set margins_avg" "fst ?g = [Str (str ''B'')]"
    by (simp_all add: margins_avg_def)
  from avg_margin_mean [OF avg_margin_margins] obtain c m where
    "col_index (columns margins_table) (str ''Confectionary'') = Inr c"
    "col_index (columns margins_table) (str ''Profit_Margin_%'') = Inr m"
    "\<forall>g \<in> set margins_avg. numbers (group_values [c] m (rows margins_table) (fst g)) \<noteq> [] \<and>
        exact_sums 0 (numbers (group_values [c] m (rows margins_table) (fst g))) \<longrightarrow>
        snd g = Num (round64 (exact_mean (numbers (group_values [c] m (rows margins_table) (fst g)))))"
    "\<forall>g \<in> set margins_avg.
        group_values [c] m (rows margins_table) (fst g) = [Num (Fin 10), NA, Num (Fin 30)] \<longrightarrow>
        snd g = Num (Fin 20)"
    "sorted_wrt not_below (map snd margins_avg)"
    by blast
  with c0 m1 have
    a: "\<forall>g \<in> set margins_avg. numbers (group_values [0] 1 (rows margins_table) (fst g)) \<noteq> [] \<and>
        exact_sums 0 (numbers (group_values [0] 1 (rows margins_table) (fst g))) \<longrightarrow>
        snd g = Num (round64 (exact_mean (numbers (group_values [0] 1 (rows margins_table) (fst g)))))"
    and b: "\<forall>g \<in> set margins_avg.
        group_values [0] 1 (rows margins_table) (fst g) = [Num (Fin 10), NA, Num (Fin 30)] \<longrightarrow>
        snd g = Num (Fin 20)"
    and s: "sorted_wrt not_below (map snd margins_avg)"
    by simp_all
  from a [rule_format, OF g(1)] ne ex
  have 1: "snd ?g = Num (round64 (exact_mean (numbers [Num (Fin 10), NA, Num (Fin 30)])))"
    by (simp only: g(2) gv simp_thms)
  from b [rule_format, OF g(1)] have 2: "snd ?g = Num (Fin 20)"
    by (simp only: g(2) gv simp_thms)
  from avg_margin_margins gv ne ex 1 2 s show ?thesis
    by (intro conjI)
qed

text \<open>
  C3, as the claim states it: normalization would be collision-free on every set of
  column names. It is not: the two distinct names \<open>A B\<close> and \<open>A_B\<close> get the same
  identifier.
\<close>

theorem normalize_name_collision:
  "normalize_name (str ''A B'') = normalize_name (str ''A_B'') \<and> str ''A B'' \<noteq> str ''A_B''"
  by (simp add: name_eval)

text \<open>
  C3, amended: normalization maps the name \<open>Revenue (\<pounds>)\<close> to \<open>Revenue_GBP\<close>; the six
  columns of the expected schema get six distinct identifiers; no identifier contains a
  space or a parenthesis; and a name with no whitespace at either end, no space and no
  parenthesis is left unchanged, so that normalization is collision-free on column sets
  made of such names.
\<close>

theorem normalize_name_revenue:
  "normalize_name (str ''Revenue ('' @ [pound] @ str '')'') = str ''Revenue_GBP'' \<and>
   distinct (map normalize_name schema) \<and>
   (\<forall>c. 32 \<notin> set (normalize_name c) \<and> 40 \<notin> set (normalize_name c) \<and>
        41 \<notin> set (normalize_name c)) \<and>
   (\<forall>cs. (\<forall>c \<in> set cs. plain_name c) \<longrightarrow> map normalize_name cs = cs)"
proof (intro conjI allI impI)
  show "normalize_name (str ''Revenue ('' @ [pound] @ str '')'') = str ''Revenue_GBP''"
    by (simp add: name_eval)
  show "distinct (map normalize_name schema)"
    unfolding normalize_name_schema by simp
next
  fix c
  show "32 \<notin> set (normalize_name c)" "40 \<notin> set (normalize_name c)" "41 \<notin> set (normalize_name c)"
    using normalize_name_chars [of c] by simp_all
next
  fix cs assume "\<forall>c \<in> set cs. plain_name c"
  then show "map normalize_name cs = cs"
    by (simp add: normalize_name_plain map_idI)
qed

theorem normalize_name_revenue_witness:
  "plain_name (str ''Date'') \<and> plain_name (str ''Units_Sold'') \<and>
   map normalize_name [str ''Date'', str ''Units_Sold''] = [str ''Date'', str ''Units_Sold'']"
proof -
  have h: "plain_name (str ''Date'')" "plain_name (str ''Units_Sold'')"
    by (simp_all add: plain_name_def name_eval)
  then have "\<forall>c \<in> set [str ''Date'', str ''Units_Sold'']. plain_name c"
    by simp
  with normalize_name_revenue
  have "map normalize_name [str ''Date'', str ''Units_Sold''] = [str ''Date'', str ''Units_Sold'']"
    by blast
  with h show ?thesis by simp
qed

text \<open>
  C4, as the claim states it: cleaning a cleaned table would return the same table. The
  table cleaned from an input with a \<open>Year\<close> column has two identical rows, and the
  second cleaning drops one of them.
\<close>

theorem reclean_drops_row:
  "clean stable_tie no_parse year_table = Inr year_clean \<and>
   clean stable_tie no_parse year_clean = Inr year_reclean \<and>
   length (rows year_clean) = 2 \<and> length (rows year_reclean) = 1"
  by (simp add: clean_year_table reclean_year_table) (simp add: year_clean_def year_reclean_def)

text \<open>
  C4, amended: cleaning a cleaned table returns the same table, provided that the column
  names of the cleaned table are unchanged by normalization, that no two of its rows are
  identical, and that sorting it by \<open>Date\<close> again leaves its rows in place (the
  sort is not stable: rows with the same date may come out in another order). The last
  condition holds for a stable sort, and for every sort when no two rows have the same
  date (\<open>resort_keeps_stable\<close>, \<open>resort_keeps_distinct\<close>).
\<close>

theorem clean_idempotent:
  assumes "wf_table t" "clean tie parse t = Inr t1"
    and "map normalize_name (columns t1) = columns t1"
    and "distinct (map snd (rows t1))"
    and "resort_keeps tie t1"
  shows "clean tie parse' t1 = Inr t1"
proof -
  from assms(1,2) obtain d ys ms pj rj mg where
    wf1: "wf_table t1" and d1: "dated d t1" and
    ys: "map dt_year (column d t1) = map Inr ys" and yl: "labelled (str ''Year'') ys t1" and
    ms: "map dt_month_name (column d t1) = map Inr ms" and ml: "labelled (str ''Month'') ms t1" and
    pj: "col_index (columns t1) (str ''ProfitGBP'') = Inr pj" and
    rj: "col_index (columns t1) (str ''RevenueGBP'') = Inr rj" and
    mg: "map2 margin (column pj t1) (column rj t1) = map Inr mg" and
    gl: "labelled (str ''Profit_Margin_%'') mg t1" and
    ly: "length ys = length (rows t1)" and lm: "length ms = length (rows t1)" and
    lg: "length mg = length (rows t1)"
    by (rule clean_shape)
  from d1 have dcol: "col_index (columns t1) (str ''Date'') = Inr d"
    and stamps: "list_all is_stamp (column d t1)"
    by (simp_all add: dated_def)
  have gd: "get_col (str ''Date'') t1 = Inr (column d t1)"
    using d1 by (rule dated_get_col)
  have s0: "normalize_columns t1 = t1"
    by (simp add: normalize_columns_def assms(3))
  have dl: "labelled (str ''Date'') (column d t1) t1"
    unfolding labelled_def
    using col_index_InrD(3,4) [OF dcol] by auto
  have "set_col (str ''Date'') (to_datetime parse' (column d t1)) t1 = t1"
    unfolding to_datetime_stamps [OF stamps]
    using wf1 _ dl by (rule set_col_labelled_id) simp
  then have s1: "convert_date parse' t1 = Inr t1"
    by (simp add: convert_date_def gd)
  have s2a: "drop_duplicates t1 = t1"
    using assms(4) by (simp add: drop_duplicates_def dedup_distinct_id)
  have "filter (\<lambda>r. snd r ! d \<noteq> NA) (rows t1) = rows t1"
    using stamps by (auto simp: filter_id_conv list_all_iff column_def dest: is_stamp_not_NA)
  then have s2: "dropna (str ''Date'') t1 = Inr t1"
    by (simp add: dropna_unique [OF dcol])
  from assms(5) have "nargsort tie True (map date_key (column d t1)) = [0..<length (rows t1)]"
    by (simp add: resort_keeps_def gd)
  then have s3: "sort_values tie date_key True (str ''Date'') t1 = Inr t1"
    by (simp add: sort_values_def gd take_rows_all)
  have "set_col (str ''Year'') ys t1 = t1"
    using wf1 ly yl by (rule set_col_labelled_id)
  then have s4: "derive_year t1 = Inr t1"
    by (simp add: derive_year_def gd ys)
  have "set_col (str ''Month'') ms t1 = t1"
    using wf1 lm ml by (rule set_col_labelled_id)
  then have s5: "derive_month t1 = Inr t1"
    by (simp add: derive_month_def gd ms)
  have "set_col (str ''Profit_Margin_%'') mg t1 = t1"
    using wf1 lg gl by (rule set_col_labelled_id)
  then have s6: "derive_margin t1 = Inr t1"
    by (simp add: derive_margin_def get_col_def pj rj mg)
  show ?thesis
    by (simp add: clean_def s0 s1 s2a s2 s3 s4 s5 s6)
qed

theorem clean_idempotent_witness:
  "wf_table sales \<and> clean stable_tie no_parse sales = Inr sales_clean \<and>
   map normalize_name (columns sales_clean) = columns sales_clean \<and>
   distinct (map snd (rows sales_clean)) \<and>
   resort_keeps stable_tie sales_clean \<and>
   clean stable_tie no_parse sales_clean = Inr sales_clean"
proof -
  have h3: "map normalize_name (columns sales_clean) = columns sales_clean"
    by (simp add: sales_clean_def name_eval str_def)
  have h4: "distinct (map snd (rows sales_clean))"
    by (simp add: sales_clean_def)
  have h5: "resort_keeps stable_tie sales_clean"
    by (simp add: resort_keeps_def sales_clean_def lookup_eval nargsort_def argsort_def
        ts_key_def stable_tie_def)
  from clean_idempotent [OF wf_sales clean_sales h3 h4 h5, of no_parse]
  show ?thesis
    using wf_sales clean_sales h3 h4 h5 by simp
qed

text \<open>
  C5: every row of the cleaned table has a timestamp under \<open>Date\<close>, and the timestamps
  are in non-decreasing order, with the derived columns in place.
\<close>

theorem clean_dates_sorted:
  assumes "wf_table t" "clean tie parse t = Inr t'"
  shows "\<exists>ds. get_col (str ''Date'') t' = Inr (map Stamp ds) \<and> sorted (map ts_key ds)"
proof -
  from assms obtain ds where
    "get_col (str ''Date'') t' = Inr (map Stamp ds)" "sorted (map ts_key ds)"
    by (rule clean_sorted)
  then show ?thesis by blast
qed

theorem clean_dates_sorted_witness:
  "wf_table sales \<and> clean stable_tie no_parse sales = Inr sales_clean \<and>
   (\<exists>ds. get_col (str ''Date'') sales_clean = Inr (map Stamp ds) \<and> sorted (map ts_key ds))"
  using wf_sales clean_sales clean_dates_sorted [OF wf_sales clean_sales] by simp

text \<open>
  C6, as the claim states it: no input would give two identical rows. An input that
  already has a \<open>Year\<close> column in which two rows differ keeps both rows, and the
  assignment of the derived year then makes them identical.
\<close>

theorem year_column_duplicates:
  "clean stable_tie no_parse year_table = Inr year_clean \<and> \<not> distinct (map snd (rows year_clean))"
  by (simp add: clean_year_table) (simp add: year_clean_def)

text \<open>
  C6, amended: when no column of the input is named \<open>Year\<close>, \<open>Month\<close> or
  \<open>Profit_Margin_%\<close> after normalization, no two rows of the cleaned table are identical
  across all columns.
\<close>

theorem clean_rows_distinct:
  assumes "wf_table t" "clean tie parse t = Inr t'"
    and "str ''Year'' \<notin> set (map normalize_name (columns t))"
    and "str ''Month'' \<notin> set (map normalize_name (columns t))"
    and "str ''Profit_Margin_%'' \<notin> set (map normalize_name (columns t))"
  shows "distinct (map snd (rows t'))"
proof -
  from assms(1,2) obtain t3 ys ms mg where
    c3: "columns t3 = map normalize_name (columns t)" and
    dist: "distinct (map snd (rows t3))" and
    ly: "length ys = length (rows t3)" and lm: "length ms = length (rows t3)" and
    lg: "length mg = length (rows t3)" and
    t': "t' = set_col (str ''Profit_Margin_%'') mg (set_col (str ''Month'') ms (set_col (str ''Year'') ys t3))"
    by (rule clean_props)
  let ?t4 = "set_col (str ''Year'') ys t3"
  let ?t5 = "set_col (str ''Month'') ms ?t4"
  have n4: "str ''Year'' \<notin> set (columns t3)"
    using assms(3) by (simp add: c3)
  have dist4: "distinct (map snd (rows ?t4))"
    using n4 ly dist by (rule distinct_set_col_new)
  have n5: "str ''Month'' \<notin> set (columns ?t4)"
    using assms(4) by (simp add: columns_set_col c3)
  have l4: "length ms = length (rows ?t4)"
    by (simp add: length_rows_set_col ly lm)
  have dist5: "distinct (map snd (rows ?t5))"
    using n5 l4 dist4 by (rule distinct_set_col_new)
  have n6: "str ''Profit_Margin_%'' \<notin> set (columns ?t5)"
    using assms(5) by (simp add: columns_set_col c3)
  have l5: "length mg = length (rows ?t5)"
    by (simp add: length_rows_set_col ly lm lg)
  show ?thesis
    unfolding t' using n6 l5 dist5 by (rule distinct_set_col_new)
qed


theorem clean_rows_distinct_witness:
  "wf_table sales \<and> clean stable_tie no_parse sales = Inr sales_clean \<and>
   str ''Year'' \<notin> set (map normalize_name (columns sales)) \<and>
   str ''Month'' \<notin> set (map normalize_name (columns sales)) \<and>
   str ''Profit_Margin_%'' \<notin> set (map normalize_name (columns sales)) \<and>
   distinct (map snd (rows sales_clean))"
proof -
  have h3: "str ''Year'' \<notin> set (map normalize_name (columns sales))"
    and h4: "str ''Month'' \<notin> set (map normalize_name (columns sales))"
    and h5: "str ''Profit_Margin_%'' \<notin> set (map normalize_name (columns sales))"
    by (simp_all add: sales_def name_eval str_def)
  from clean_rows_distinct [OF wf_sales clean_sales h3 h4 h5]
  show ?thesis
    using wf_sales clean_sales h3 h4 h5 by simp
qed

text \<open>
  C7, as the claim states it: the query would return the group with the maximum sum.
  On an int64 revenue column in which January has two sales of \<open>2^62\<close> and February one
  of 7, the sum of January wraps around to \<open>-2^63\<close> and the query returns February.
\<close>

theorem peak_month_wraps:
  "dtype_of (column 2 wrap_months) = Int64 \<and>
   peak_month stable_tie Int64 wrap_months = Inr wrap_months_peak \<and>
   rows wrap_months_peak = [(0, [Num (Fin 2021), Str (str ''February''), Num (Fin 7)])] \<and>
   total (numbers (group_values [0, 1] 2 (rows wrap_months)
      [Num (Fin 2021), Str (str ''January'')])) = 2 ^ 63 \<and>
   total (numbers (group_values [0, 1] 2 (rows wrap_months)
      [Num (Fin 2021), Str (str ''February'')])) = 7"
  by (simp add: peak_month_wrap)
     (simp add: wrap_months_def wrap_months_peak_def dtype_of_def column_def group_values_def
        key_of_def str_def)

text \<open>
  C7, amended: the peak-revenue query returns at most one row, and none only when no row
  has both a year and a month; the row is a (year, month) group of the table with the
  sum of its revenues as \<open>sum()\<close> computes it (in int64 with wrap-around, or in float64
  by compensated summation), and no group has a larger computed sum, a missing sum
  counting as the smallest; when no sum wraps around or rounds, the row is a group
  with the maximum sum. On the table whose two months have the sums 500 and 700 it is
  the month with 700.
\<close>

theorem peak_month_max:
  assumes "peak_month tie dt t = Inr res"
  shows "\<exists>y m v. col_index (columns t) (str ''Year'') = Inr y \<and>
     col_index (columns t) (str ''Month'') = Inr m \<and>
     col_index (columns t) (str ''RevenueGBP'') = Inr v \<and>
     columns res = [str ''Year'', str ''Month'', str ''RevenueGBP''] \<and>
     length (rows res) \<le> 1 \<and>
     (rows res = [] \<longleftrightarrow> groups [y, m] t = {}) \<and>
     (\<forall>r \<in> set (rows res). \<exists>k x. k \<in> groups [y, m] t \<and> snd r = k @ [x] \<and>
        agg_sum dt (group_values [y, m] v (rows t) k) = Inr x \<and>
        (\<forall>k' \<in> groups [y, m] t. \<exists>x'.
           agg_sum dt (group_values [y, m] v (rows t) k') = Inr x' \<and> not_below x x') \<and>
        ((\<forall>k' \<in> groups [y, m] t. sums_exact dt (numbers (group_values [y, m] v (rows t) k'))) \<longrightarrow>
           x = Num (Fin (total (numbers (group_values [y, m] v (rows t) k)))) \<and>
           (\<forall>k' \<in> groups [y, m] t.
              total (numbers (group_values [y, m] v (rows t) k'))
                \<le> total (numbers (group_values [y, m] v (rows t) k)))))"
proof -
  from assms obtain y m v s where
    y: "col_index (columns t) (str ''Year'') = Inr y" and
    m: "col_index (columns t) (str ''Month'') = Inr m" and
    v: "col_index (columns t) (str ''RevenueGBP'') = Inr v" and
    keys: "map fst s = group_keys [y, m] (rows t)" and
    vals: "\<forall>g \<in> set s. agg_sum dt (group_values [y, m] v (rows t) (fst g)) = Inr (snd g)" and
    cols: "columns res = [str ''Year'', str ''Month'', str ''RevenueGBP'']" and
    empty0: "s = [] \<longrightarrow> rows res = []" and
    nonempty0: "s \<noteq> [] \<longrightarrow> (\<exists>i < length s. rows res = [(i, fst (s ! i) @ [snd (s ! i)])] \<and>
       (\<forall>g \<in> set s. value_key (snd g) = None \<or>
          (\<exists>a b. value_key (snd g) = Some a \<and> value_key (snd (s ! i)) = Some b \<and> a \<le> b)))"
    by (rule peak_month_props)
  note empty = empty0 [rule_format] and nonempty = nonempty0 [THEN mp]
  define G where "G = groups [y, m] t"
  define V where "V = (\<lambda>k. group_values [y, m] v (rows t) k)"
  define T where "T = (\<lambda>k. total (numbers (V k)))"
  have G: "fst ` set s = G"
    using arg_cong [OF keys, of set] by (simp add: set_group_keys G_def)
  have agg: "agg_sum dt (V (fst g)) = Inr (snd g)" if "g \<in> set s" for g
    unfolding V_def using vals that by (rule bspec)
  have len: "length (rows res) \<le> 1"
  proof (cases "s = []")
    case True
    then show ?thesis by (simp add: empty)
  next
    case False
    from nonempty [OF False] show ?thesis by auto
  qed
  have emp: "rows res = [] \<longleftrightarrow> G = {}"
  proof (cases "s = []")
    case True
    with empty G show ?thesis by auto
  next
    case False
    from nonempty [OF False] have "rows res \<noteq> []" by auto
    moreover from False have "fst ` set s \<noteq> {}" by simp
    ultimately show ?thesis by (simp add: G)
  qed
  have row: "\<forall>r \<in> set (rows res). \<exists>k x. k \<in> G \<and> snd r = k @ [x] \<and>
        agg_sum dt (V k) = Inr x \<and>
        (\<forall>k' \<in> G. \<exists>x'. agg_sum dt (V k') = Inr x' \<and> not_below x x') \<and>
        ((\<forall>k' \<in> G. sums_exact dt (numbers (V k'))) \<longrightarrow>
           x = Num (Fin (T k)) \<and> (\<forall>k' \<in> G. T k' \<le> T k))"
  proof (cases "s = []")
    case True
    then show ?thesis by (simp add: empty)
  next
    case False
    from nonempty [OF False] obtain i where i: "i < length s" and
      r: "rows res = [(i, fst (s ! i) @ [snd (s ! i)])]" and
      mx: "\<forall>g \<in> set s. value_key (snd g) = None \<or>
          (\<exists>a b. value_key (snd g) = Some a \<and> value_key (snd (s ! i)) = Some b \<and> a \<le> b)"
      by blast
    define k where "k = fst (s ! i)"
    define x where "x = snd (s ! i)"
    from i have mem: "s ! i \<in> set s" by simp
    then have "fst (s ! i) \<in> fst ` set s" by (rule imageI)
    then have kG: "k \<in> G" by (simp only: G k_def)
    have ax: "agg_sum dt (V k) = Inr x"
      using agg [OF mem] by (simp add: k_def x_def)
    have others: "\<exists>x'. agg_sum dt (V k') = Inr x' \<and> not_below x x'" if "k' \<in> G" for k'
    proof -
      from that have "k' \<in> fst ` set s" by (simp only: G)
      then obtain g where g: "g \<in> set s" "k' = fst g" by (rule imageE)
      from mx g(1) have "value_key (snd g) = None \<or>
          (\<exists>a b. value_key (snd g) = Some a \<and> value_key (snd (s ! i)) = Some b \<and> a \<le> b)"
        by (rule bspec)
      moreover have "is_number (snd (s ! i))" "is_number (snd g)"
        using agg [OF mem] agg [OF g(1)] by (auto intro: agg_sum_number)
      ultimately have "not_below (snd (s ! i)) (snd g)"
        by (intro not_below_of_keys)
      with agg [OF g(1)] show ?thesis
        by (simp add: g(2) x_def)
    qed
    have exact: "x = Num (Fin (T k)) \<and> (\<forall>k' \<in> G. T k' \<le> T k)"
      if a: "\<forall>k' \<in> G. sums_exact dt (numbers (V k'))"
    proof -
      have val: "x' = Num (Fin (T k'))" if "k' \<in> G" "agg_sum dt (V k') = Inr x'" for k' x'
        unfolding T_def using that(2) a [rule_format, OF that(1)] by (rule agg_sum_exact)
      have xT: "x = Num (Fin (T k))"
        using kG ax by (rule val)
      have "T k' \<le> T k" if "k' \<in> G" for k'
      proof -
        from others [OF that] obtain x' where x': "agg_sum dt (V k') = Inr x'" "not_below x x'"
          by blast
        from val [OF that x'(1)] x'(2) xT show ?thesis by simp
      qed
      with xT show ?thesis by simp
    qed
    have "k \<in> G \<and> fst (s ! i) @ [snd (s ! i)] = k @ [x] \<and> agg_sum dt (V k) = Inr x \<and>
        (\<forall>k' \<in> G. \<exists>x'. agg_sum dt (V k') = Inr x' \<and> not_below x x') \<and>
        ((\<forall>k' \<in> G. sums_exact dt (numbers (V k'))) \<longrightarrow>
           x = Num (Fin (T k)) \<and> (\<forall>k' \<in> G. T k' \<le> T k))"
      using kG ax others exact by (simp add: k_def x_def)
    then have "\<exists>k x. k \<in> G \<and> fst (s ! i) @ [snd (s ! i)] = k @ [x] \<and> agg_sum dt (V k) = Inr x \<and>
        (\<forall>k' \<in> G. \<exists>x'. agg_sum dt (V k') = Inr x' \<and> not_below x x') \<and>
        ((\<forall>k' \<in> G. sums_exact dt (numbers (V k'))) \<longrightarrow>
           x = Num (Fin (T k)) \<and> (\<forall>k' \<in> G. T k' \<le> T k))"
      by (intro exI)
    then show ?thesis
      by (simp add: r)
  qed
  have "col_index (columns t) (str ''Year'') = Inr y \<and>
     col_index (columns t) (str ''Month'') = Inr m \<and>
     col_index (columns t) (str ''RevenueGBP'') = Inr v \<and>
     columns res = [str ''Year'', str ''Month'', str ''RevenueGBP''] \<and>
     length (rows res) \<le> 1 \<and>
     (rows res = [] \<longleftrightarrow> G = {}) \<and>
     (\<forall>r \<in> set (rows res). \<exists>k x. k \<in> G \<and> snd r = k @ [x] \<and>
        agg_sum dt (V k) = Inr x \<and>
        (\<forall>k' \<in> G. \<exists>x'. agg_sum dt (V k') = Inr x' \<and> not_below x x') \<and>
        ((\<forall>k' \<in> G. sums_exact dt (numbers (V k'))) \<longrightarrow>
           x = Num (Fin (T k)) \<and> (\<forall>k' \<in> G. T k' \<le> T k)))"
    using y m v cols len emp row by simp
  then show ?thesis
    unfolding G_def T_def V_def by (intro exI)
qed

theorem peak_month_max_witness:
  "dtype_of (column 2 two_months) = Int64 \<and>
   peak_month stable_tie Int64 two_months = Inr two_months_peak \<and>
   sums_exact Int64 (numbers (group_values [0, 1] 2 (rows two_months)
      [Num (Fin 2021), Str (str ''January'')])) \<and>
   sums_exact Int64 (numbers (group_values [0, 1] 2 (rows two_months)
      [Num (Fin 2021), Str (str ''February'')])) \<and>
   total (numbers (group_values [0, 1] 2 (rows two_months)
      [Num (Fin 2021), Str (str ''January'')])) = 700 \<and>
   total (numbers (group_values [0, 1] 2 (rows two_months)
      [Num (Fin 2021), Str (str ''February'')])) = 500 \<and>
   rows two_months_peak = [(1, [Num (Fin 2021), Str (str ''January''), Num (Fin 700)])]"
proof -
  let ?V = "\<lambda>k. group_values [0, 1] 2 (rows two_months) k"
  let ?jan = "[Num (Fin 2021), Str (str ''January'')]"
  let ?feb = "[Num (Fin 2021), Str (str ''February'')]"
  have y: "col_index (columns two_months) (str ''Year'') = Inr 0"
    and m: "col_index (columns two_months) (str ''Month'') = Inr 1"
    and v: "col_index (columns two_months) (str ''RevenueGBP'') = Inr 2"
    by (simp_all add: two_months_def col_index_def positions_def str_def)
  have dt: "dtype_of (column 2 two_months) = Int64"
    by (simp add: two_months_def dtype_of_def column_def)
  have jan: "total (numbers (?V ?jan)) = 700" and feb: "total (numbers (?V ?feb)) = 500"
    by (simp_all add: two_months_def group_values_def key_of_def str_def)
  have ej: "sums_exact Int64 (numbers (?V ?jan))" and ef: "sums_exact Int64 (numbers (?V ?feb))"
    unfolding sums_exact_def dtype.case in_int64_def jan feb by simp_all
  have G: "groups [0, 1] two_months = {?jan, ?feb}"
    by (auto simp: groups_def two_months_def key_of_def)
  have all: "\<forall>k' \<in> groups [0, 1] two_months. sums_exact Int64 (numbers (?V k'))"
    unfolding G using ej ef by simp
  have r: "rows two_months_peak = [(1, [Num (Fin 2021), Str (str ''January''), Num (Fin 700)])]"
    by (simp add: two_months_peak_def)
  from peak_month_max [OF peak_month_two_months, of Int64] obtain y' m' v' where
    i: "col_index (columns two_months) (str ''Year'') = Inr y'"
      "col_index (columns two_months) (str ''Month'') = Inr m'"
      "col_index (columns two_months) (str ''RevenueGBP'') = Inr v'" and
    P: "\<forall>r \<in> set (rows two_months_peak). \<exists>k x. k \<in> groups [y', m'] two_months \<and> snd r = k @ [x] \<and>
        agg_sum Int64 (group_values [y', m'] v' (rows two_months) k) = Inr x \<and>
        (\<forall>k' \<in> groups [y', m'] two_months. \<exists>x'.
           agg_sum Int64 (group_values [y', m'] v' (rows two_months) k') = Inr x' \<and> not_below x x') \<and>
        ((\<forall>k' \<in> groups [y', m'] two_months.
            sums_exact Int64 (numbers (group_values [y', m'] v' (rows two_months) k'))) \<longrightarrow>
           x = Num (Fin (total (numbers (group_values [y', m'] v' (rows two_months) k)))) \<and>
           (\<forall>k' \<in> groups [y', m'] two_months.
              total (numbers (group_values [y', m'] v' (rows two_months) k'))
                \<le> total (numbers (group_values [y', m'] v' (rows two_months) k))))"
    by blast
  from i y m v have e: "y' = 0" "m' = 1" "v' = 2"
    by simp_all
  have "\<exists>k. k \<in> groups [0, 1] two_months \<and>
        snd r = k @ [Num (Fin (total (numbers (?V k))))] \<and>
        (\<forall>k' \<in> groups [0, 1] two_months. total (numbers (?V k')) \<le> total (numbers (?V k)))"
    if "r \<in> set (rows two_months_peak)" for r
  proof -
    from P [unfolded e, rule_format, OF that] obtain k x where
      k: "k \<in> groups [0, 1] two_months" "snd r = k @ [x]" and
      x: "(\<forall>k' \<in> groups [0, 1] two_months. sums_exact Int64 (numbers (?V k'))) \<longrightarrow>
           x = Num (Fin (total (numbers (?V k)))) \<and>
           (\<forall>k' \<in> groups [0, 1] two_months. total (numbers (?V k')) \<le> total (numbers (?V k)))"
      by blast
    from x [THEN mp, OF all] k show ?thesis
      by blast
  qed
  then have "\<exists>k. snd (hd (rows two_months_peak)) = k @ [Num (Fin (total (numbers (?V k))))] \<and>
        total (numbers (?V ?jan)) \<le> total (numbers (?V k))"
    unfolding G by (auto simp: r)
  with dt peak_month_two_months [of Int64] ej ef jan feb r show ?thesis
    by (intro conjI)
qed

text \<open>
  C8: an input of three rows, two of them equal and with a date that is a timestamp or a
  text that parses, the third with a text for a date that does not parse, all with
  numbers for profit and revenue, is cleaned without an error: the date that does not
  parse becomes a missing value, and the cleaned table has exactly one row. That row
  carries the index label of the first row of the pair, the date of the pair, and the
  cells of the pair in every other column of the input that is not called \<open>Year\<close>,
  \<open>Month\<close> or \<open>Profit_Margin_%\<close>.
\<close>

theorem three_rows:
  assumes "wf_table t"
    and "mset (map snd (rows t)) = {#a, a, b#}"
    and "col_index (map normalize_name (columns t)) (str ''Date'') = Inr d"
    and "col_index (map normalize_name (columns t)) (str ''ProfitGBP'') = Inr p"
    and "col_index (map normalize_name (columns t)) (str ''RevenueGBP'') = Inr r"
    and "is_number (a ! p)" "is_number (a ! r)" "is_number (b ! p)" "is_number (b ! r)"
    and "a ! d = Stamp ts \<or> (\<exists>u. a ! d = Str u \<and> parse (column d t) (Str u) = Some ts)"
    and "b ! d = Str w" "parse (column d t) (Str w) = None"
  shows "(\<forall>i < length (rows t). snd (rows t ! i) = b \<longrightarrow> to_datetime parse (column d t) ! i = NA) \<and>
         (\<exists>t' l cs. clean tie parse t = Inr t' \<and> rows t' = [(l, cs)] \<and>
            find (\<lambda>row. snd row = a) (rows t) = Some (l, a) \<and>
            cs ! d = Stamp ts \<and>
            (\<forall>j < length (columns t). j \<noteq> d \<and>
               normalize_name (columns t ! j) \<notin> {str ''Year'', str ''Month'', str ''Profit_Margin_%''} \<longrightarrow>
               cs ! j = a ! j))"
proof -
  have ca: "coerce parse (column d t) (a ! d) = Stamp ts"
    using assms(10) by (auto simp: coerce_def)
  have cb: "coerce parse (column d t) (b ! d) = NA"
    using assms(11,12) by (simp add: coerce_def)
  have "set (map snd (rows t)) = set_mset {#a, a, b#}"
    using assms(2) by (metis set_mset_mset)
  then have ab: "snd ` set (rows t) = {a, b}" by auto
  have "\<forall>row \<in> set (rows t). is_number (snd row ! p) \<and> is_number (snd row ! r)"
  proof
    fix row assume "row \<in> set (rows t)"
    then have "snd row \<in> snd ` set (rows t)" by (rule imageI)
    then have "snd row = a \<or> snd row = b" by (simp add: ab)
    with assms(6-9) show "is_number (snd row ! p) \<and> is_number (snd row ! r)" by auto
  qed
  with assms(1,3,4,5) obtain t' where t': "clean tie parse t = Inr t'"
    using clean_succeeds by blast
  from three_rows_survivor [OF assms(1) t' assms(2,3) ca cb] t'
  have 2: "\<exists>t' l cs. clean tie parse t = Inr t' \<and> rows t' = [(l, cs)] \<and>
            find (\<lambda>row. snd row = a) (rows t) = Some (l, a) \<and>
            cs ! d = Stamp ts \<and>
            (\<forall>j < length (columns t). j \<noteq> d \<and>
               normalize_name (columns t ! j) \<notin> {str ''Year'', str ''Month'', str ''Profit_Margin_%''} \<longrightarrow>
               cs ! j = a ! j)"
    by blast
  have 1: "\<forall>i < length (rows t). snd (rows t ! i) = b \<longrightarrow> to_datetime parse (column d t) ! i = NA"
    using cb by (simp add: to_datetime_def column_def)
  from 1 2 show ?thesis by (rule conjI)
qed

theorem three_rows_witness:
  "wf_table three_rows_table \<and>
   mset (map snd (rows three_rows_table)) =
     {#[Str (str ''05/01/2021''), Num (Fin 5), Num (Fin 10)],
       [Str (str ''05/01/2021''), Num (Fin 5), Num (Fin 10)],
       [Str (str ''junk''), Num (Fin 7), Num (Fin 10)]#} \<and>
   col_index (map normalize_name (columns three_rows_table)) (str ''Date'') = Inr 0 \<and>
   col_index (map normalize_name (columns three_rows_table)) (str ''ProfitGBP'') = Inr 1 \<and>
   col_index (map normalize_name (columns three_rows_table)) (str ''RevenueGBP'') = Inr 2 \<and>
   demo_parse (column 0 three_rows_table) (Str (str ''05/01/2021'')) = Some (Timestamp 2021 January 5 0) \<and>
   demo_parse (column 0 three_rows_table) (Str (str ''junk'')) = None \<and>
   to_datetime demo_parse (column 0 three_rows_table) ! 2 = NA \<and>
   clean stable_tie demo_parse three_rows_table = Inr three_rows_clean \<and>
   rows three_rows_clean =
     [(0, [Stamp (Timestamp 2021 January 5 0), Num (Fin 5), Num (Fin 10),
           Num (Fin 2021), Str (str ''January''), Num (Fin 50)])] \<and>
   find (\<lambda>row. snd row = [Str (str ''05/01/2021''), Num (Fin 5), Num (Fin 10)]) (rows three_rows_table)
     = Some (0, [Str (str ''05/01/2021''), Num (Fin 5), Num (Fin 10)])"
proof -
  let ?a = "[Str (str ''05/01/2021''), Num (Fin 5), Num (Fin 10)]"
  let ?b = "[Str (str ''junk''), Num (Fin 7), Num (Fin 10)]"
  let ?ts = "Timestamp 2021 January 5 0"
  have h1: "wf_table three_rows_table"
    by (simp add: wf_table_def three_rows_table_def)
  have h2: "mset (map snd (rows three_rows_table)) = {#?a, ?a, ?b#}"
    by (simp add: three_rows_table_def)
  have h3: "col_index (map normalize_name (columns three_rows_table)) (str ''Date'') = Inr 0"
    and h4: "col_index (map normalize_name (columns three_rows_table)) (str ''ProfitGBP'') = Inr 1"
    and h5: "col_index (map normalize_name (columns three_rows_table)) (str ''RevenueGBP'') = Inr 2"
    by (simp_all add: three_rows_table_def name_eval col_index_def positions_def str_def)
  have h6: "is_number (?a ! 1)" "is_number (?a ! 2)" "is_number (?b ! 1)" "is_number (?b ! 2)"
    by simp_all
  have pa: "demo_parse (column 0 three_rows_table) (Str (str ''05/01/2021'')) = Some ?ts"
    and pb: "demo_parse (column 0 three_rows_table) (Str (str ''junk'')) = None"
    by (simp_all add: demo_parse_def)
  have h10: "?a ! 0 = Stamp ?ts \<or> (\<exists>u. ?a ! 0 = Str u \<and> demo_parse (column 0 three_rows_table) (Str u) = Some ?ts)"
    using pa by simp
  have h11: "?b ! 0 = Str (str ''junk'')"
    by simp
  have r2: "2 < length (rows three_rows_table)" "snd (rows three_rows_table ! 2) = ?b"
    by (simp_all add: three_rows_table_def)
  have rc: "rows three_rows_clean =
     [(0, [Stamp ?ts, Num (Fin 5), Num (Fin 10), Num (Fin 2021), Str (str ''January''), Num (Fin 50)])]"
    by (simp add: three_rows_clean_def)
  note th = three_rows [where t = three_rows_table and parse = demo_parse and tie = stable_tie
      and a = ?a and b = ?b and d = 0 and p = 1 and r = 2 and ts = ?ts and w = "str ''junk''",
      OF h1 h2 h3 h4 h5 h6 h10 h11 pb]
  from th have "to_datetime demo_parse (column 0 three_rows_table) ! 2 = NA"
    using r2 by blast
  moreover from th obtain t' l cs where
    "clean stable_tie demo_parse three_rows_table = Inr t'" "rows t' = [(l, cs)]"
    "find (\<lambda>row. snd row = ?a) (rows three_rows_table) = Some (l, ?a)"
    by blast
  then have "find (\<lambda>row. snd row = ?a) (rows three_rows_table) = Some (0, ?a)"
    by (simp add: clean_three_rows rc)
  ultimately show ?thesis
    using h1 h2 h3 h4 h5 pa pb clean_three_rows rc by (intro conjI)
qed

text \<open>
  C9: when the three statements of section 5 have run, \<open>df\<close> names the same object as
  before, that object is the same frame as before (columns, rows, order and values), and
  every object that was in the store before is unchanged: the statements only add new
  objects.
\<close>

theorem analyse_keeps_df:
  assumes "analyse tie dt (h, w) = Inr (h', w')"
  shows "df w' = df w \<and> (\<exists>t. frame_at h (df w) = Inr t \<and> frame_at h' (df w') = Inr t) \<and>
         take (length h) h' = h"
proof -
  from analyse_frame [OF assms] obtain xs t where
    "df w' = df w" "h' = h @ xs" "frame_at h (df w) = Inr t"
    by blast
  then show ?thesis
    by (simp add: frame_at_append)
qed

theorem analyse_keeps_df_witness:
  "analyse stable_tie Int64 ([Frame sales_clean], unset_vars 0) =
     Inr (Frame sales_clean # sales_objects, sales_vars) \<and>
   df sales_vars = df (unset_vars 0) \<and>
   frame_at [Frame sales_clean] (df (unset_vars 0)) = Inr sales_clean \<and>
   frame_at (Frame sales_clean # sales_objects) (df sales_vars) = Inr sales_clean \<and>
   take (length [Frame sales_clean]) (Frame sales_clean # sales_objects) = [Frame sales_clean]"
proof -
  have f: "frame_at [Frame sales_clean] (df (unset_vars 0)) = Inr sales_clean"
    by (simp add: frame_at_def unset_vars_def)
  from analyse_keeps_df [OF analyse_sales] f analyse_sales show ?thesis
    by auto
qed



end
